theory Spec2Isabelle
  imports Main
begin

section \<open>Quantum Adventure: the game-state engine of \<open>main.py\<close>\<close>

text \<open>
  The development embeds the pure and the stateful parts of \<open>main.py\<close>: the two entropy
  samplers, the maze generator, the entangled move, the game object with its reset, its
  player and adversary movement, and the end-of-game check.

  Python integers are \<open>int\<close>. A position is the pair \<open>(x, y)\<close>. A raised exception is a
  value of type \<open>error\<close> on the left of a sum; a loop that need not end is a
  \<^theory_text>\<open>partial_function\<close> in the option monad, where \<open>None\<close> is "never returns".
\<close>

subsection \<open>Python values\<close>

datatype error = IndexError | ValueError

type_synonym pos = "int \<times> int"

text \<open>
  Python's index rule for a sequence of length \<open>len\<close>: \<open>i\<close> from \<open>0\<close> up to \<open>len - 1\<close>
  is itself, \<open>i\<close> from \<open>-len\<close> up to \<open>-1\<close> counts from the end, anything else raises.
\<close>

definition py_slot :: "nat \<Rightarrow> int \<Rightarrow> nat option" where
  "py_slot len i =
     (if 0 \<le> i \<and> i < int len then Some (nat i)
      else if i < 0 \<and> - int len \<le> i then Some (nat (int len + i))
      else None)"

text \<open>\<open>xs[i]\<close> and \<open>xs[i] = v\<close>.\<close>

definition py_index :: "'a list \<Rightarrow> int \<Rightarrow> error + 'a" where
  "py_index xs i = (case py_slot (length xs) i of None \<Rightarrow> Inl IndexError | Some j \<Rightarrow> Inr (xs ! j))"

definition py_store :: "'a list \<Rightarrow> int \<Rightarrow> 'a \<Rightarrow> error + 'a list" where
  "py_store xs i v =
     (case py_slot (length xs) i of None \<Rightarrow> Inl IndexError | Some j \<Rightarrow> Inr (xs[j := v]))"

text \<open>\<open>xs[:b]\<close>: a negative bound drops that many elements from the end.\<close>

definition py_prefix :: "'a list \<Rightarrow> int \<Rightarrow> 'a list" where
  "py_prefix xs b = (if 0 \<le> b then take (nat b) xs else take (length xs - nat (- b)) xs)"

text \<open>\<open>int.bit_length()\<close>: the number of binary digits of the absolute value.\<close>

fun bit_length_nat :: "nat \<Rightarrow> nat" where
  "bit_length_nat n = (if n = 0 then 0 else Suc (bit_length_nat (n div 2)))"

declare bit_length_nat.simps [simp del]

definition bit_length :: "int \<Rightarrow> nat" where
  "bit_length v = bit_length_nat (nat \<bar>v\<bar>)"

text \<open>
  A measured bit string is a \<open>bool list\<close> in the order of the characters of the key,
  \<open>True\<close> for the character \<open>1\<close>. \<open>int(key, 2)\<close> reads it most significant bit first and
  raises \<open>ValueError\<close> on the empty string.
\<close>

definition binary_value :: "bool list \<Rightarrow> int" where
  "binary_value bits = foldl (\<lambda>a b. 2 * a + (if b then 1 else 0)) 0 bits"

definition int_base2 :: "bool list \<Rightarrow> error + int" where
  "int_base2 bits = (if bits = [] then Inl ValueError else Inr (binary_value bits))"

subsection \<open>The simulator backend\<close>

text \<open>
  The simulator is outside the program. It is taken as the infinite sequence of the bits
  it will measure, read from a cursor: one shot of a circuit of \<open>n\<close> qubits, each put in
  superposition and measured, yields the next \<open>n\<close> bits as the key of its count table.
\<close>

type_synonym backend = "nat \<Rightarrow> bool"

definition run_shot :: "backend \<Rightarrow> nat \<Rightarrow> nat \<Rightarrow> bool list \<times> nat" where
  "run_shot src n cur = (map src [cur ..< cur + n], cur + n)"

subsection \<open>\<open>quantum_random_int\<close>\<close>

text \<open>
  The \<open>while True\<close> loop: one shot of \<open>n_qubits\<close> bits, read as a binary number, returned
  when it is below \<open>max_value\<close> and drawn again otherwise. The result carries the cursor of
  the backend after the last shot.
\<close>

partial_function (option) quantum_random_int_loop ::
  "int \<Rightarrow> nat \<Rightarrow> backend \<Rightarrow> nat \<Rightarrow> (error + int \<times> nat) option" where
  "quantum_random_int_loop max_value n_qubits src cur =
     (case run_shot src n_qubits cur of (key, cur') \<Rightarrow>
        (case int_base2 key of
           Inl e \<Rightarrow> Some (Inl e)
         | Inr val \<Rightarrow>
             if val < max_value then Some (Inr (val, cur'))
             else quantum_random_int_loop max_value n_qubits src cur'))"

declare quantum_random_int_loop.simps [code]

definition quantum_random_int :: "int \<Rightarrow> backend \<Rightarrow> nat \<Rightarrow> (error + int \<times> nat) option" where
  "quantum_random_int max_value src cur =
     quantum_random_int_loop max_value (bit_length max_value) src cur"

subsection \<open>\<open>quantum_random_int_batch\<close>\<close>

text \<open>
  The count table that the simulator returns for \<open>batch_size\<close> shots is a parameter: the
  list of its entries (key, number of shots that measured the key) in the order in which
  the dictionary is iterated. \<open>batch_values\<close> is the \<open>for key in counts\<close> loop with its
  accumulator \<open>values\<close>.
\<close>

type_synonym counts = "(bool list \<times> nat) list"

fun batch_values :: "int \<Rightarrow> counts \<Rightarrow> int list \<Rightarrow> error + int list" where
  "batch_values max_value [] vals = Inr vals"
| "batch_values max_value ((key, c) # rest) vals =
     (case int_base2 key of
        Inl e \<Rightarrow> Inl e
      | Inr val \<Rightarrow>
          if val < max_value then batch_values max_value rest (vals @ replicate c val)
          else batch_values max_value rest vals)"

definition quantum_random_int_batch :: "int \<Rightarrow> int \<Rightarrow> counts \<Rightarrow> error + int list" where
  "quantum_random_int_batch max_value batch_size cnts =
     (case batch_values max_value cnts [] of
        Inl e \<Rightarrow> Inl e
      | Inr vals \<Rightarrow> Inr (py_prefix vals batch_size))"

subsection \<open>\<open>quantum_maze_visibility\<close>\<close>

text \<open>\<open>grid[y][x]\<close> and \<open>grid[y][x] = v\<close> on a list of rows, each row a list of its own.\<close>

definition cell :: "bool list list \<Rightarrow> int \<Rightarrow> int \<Rightarrow> error + bool" where
  "cell grid y x = (case py_index grid y of Inl e \<Rightarrow> Inl e | Inr row \<Rightarrow> py_index row x)"

definition set_cell :: "bool list list \<Rightarrow> int \<Rightarrow> int \<Rightarrow> bool \<Rightarrow> error + bool list list" where
  "set_cell grid y x v =
     (case py_slot (length grid) y of
        None \<Rightarrow> Inl IndexError
      | Some j \<Rightarrow>
          (case py_store (grid ! j) x v of
             Inl e \<Rightarrow> Inl e
           | Inr row \<Rightarrow> Inr (grid[j := row])))"

text \<open>
  The \<open>for y in range(size)\<close> loop, \<open>k\<close> rows still to come: one shot of \<open>size_n\<close> bits per
  row, the row being the bits of the key from its last character to its first.
\<close>

fun fill_rows :: "backend \<Rightarrow> nat \<Rightarrow> nat \<Rightarrow> nat \<Rightarrow> bool list list \<Rightarrow> bool list list \<times> nat" where
  "fill_rows src size_n 0 cur grid = (grid, cur)"
| "fill_rows src size_n (Suc k) cur grid =
     (case run_shot src size_n cur of (bits, cur') \<Rightarrow>
        fill_rows src size_n k cur' (grid @ [map (\<lambda>bit. bit = True) (rev bits)]))"

definition quantum_maze_visibility ::
  "int \<Rightarrow> pos \<Rightarrow> pos option \<Rightarrow> backend \<Rightarrow> nat \<Rightarrow> error + bool list list \<times> nat" where
  "quantum_maze_visibility size_n start goal_arg src cur =
     (let goal = (case goal_arg of None \<Rightarrow> (size_n div 2, size_n div 2) | Some g \<Rightarrow> g)
      in case fill_rows src (nat size_n) (nat size_n) cur [] of (grid, cur') \<Rightarrow>
         case start of (sx, sy) \<Rightarrow> case goal of (gx, gy) \<Rightarrow>
           (case set_cell grid sy sx True of
              Inl e \<Rightarrow> Inl e
            | Inr grid1 \<Rightarrow>
                (case set_cell grid1 gy gx True of
                   Inl e \<Rightarrow> Inl e
                 | Inr grid2 \<Rightarrow> Inr (grid2, cur'))))"

subsection \<open>\<open>entangled_move\<close>\<close>

definition entangled_move :: "pos \<Rightarrow> pos \<Rightarrow> pos \<Rightarrow> int \<Rightarrow> pos \<times> pos" where
  "entangled_move pos1 pos2 move grid_size =
     (case pos1 of (x1, y1) \<Rightarrow> case pos2 of (x2, y2) \<Rightarrow> case move of (dx, dy) \<Rightarrow>
        let new_pos1 = (max 0 (min (grid_size - 1) (x1 + dx)),
                        max 0 (min (grid_size - 1) (y1 + dy)));
            new_pos2 = (max 0 (min (grid_size - 1) (x2 - dx)),
                        max 0 (min (grid_size - 1) (y2 - dy)))
        in (new_pos1, new_pos2))"

subsection \<open>The game object\<close>

text \<open>The attributes of \<open>QuantumAdventureGame\<close> that the engine reads and writes.\<close>

record game =
  grid_size :: int
  enemy_move_delay :: int
  enemy_move_counter :: int
  goal :: pos
  maze :: "bool list list"
  player1_pos :: pos
  player2_pos :: pos
  enemies :: "pos list"
  running :: bool

definition is_valid :: "game \<Rightarrow> pos \<Rightarrow> error + bool" where
  "is_valid self p =
     (case p of (x, y) \<Rightarrow>
        if 0 \<le> x \<and> x < grid_size self \<and> 0 \<le> y \<and> y < grid_size self
        then cell (maze self) y x else Inr False)"

definition move_players :: "game \<Rightarrow> pos \<Rightarrow> error + game" where
  "move_players self move =
     (case entangled_move (player1_pos self) (player2_pos self) move (grid_size self) of
        (new_pos1, new_pos2) \<Rightarrow>
          (case is_valid self new_pos1 of
             Inl e \<Rightarrow> Inl e
           | Inr ok1 \<Rightarrow>
               let self1 = (if ok1 then self\<lparr>player1_pos := new_pos1\<rparr> else self)
               in (case is_valid self1 new_pos2 of
                     Inl e \<Rightarrow> Inl e
                   | Inr ok2 \<Rightarrow> Inr (if ok2 then self1\<lparr>player2_pos := new_pos2\<rparr> else self1))))"

text \<open>The \<open>while True\<close> search for a spawn cell; it reads the maze, both players and the goal.\<close>

partial_function (option) random_empty_cell ::
  "game \<Rightarrow> backend \<Rightarrow> nat \<Rightarrow> (error + pos \<times> nat) option" where
  "random_empty_cell self src cur =
     (case quantum_random_int (grid_size self) src cur of
        None \<Rightarrow> None
      | Some rx \<Rightarrow>
          (case rx of
             Inl e \<Rightarrow> Some (Inl e)
           | Inr (x, cur1) \<Rightarrow>
               (case quantum_random_int (grid_size self) src cur1 of
                  None \<Rightarrow> None
                | Some ry \<Rightarrow>
                    (case ry of
                       Inl e \<Rightarrow> Some (Inl e)
                     | Inr (y, cur2) \<Rightarrow>
                         (case cell (maze self) y x of
                            Inl e \<Rightarrow> Some (Inl e)
                          | Inr is_open \<Rightarrow>
                              if is_open \<and>
                                 (x, y) \<notin> set [player1_pos self, player2_pos self, goal self]
                              then Some (Inr ((x, y), cur2))
                              else random_empty_cell self src cur2)))))"

declare random_empty_cell.simps [code]

text \<open>The comprehension \<open>[self.random_empty_cell() for _ in range(n)]\<close>.\<close>

fun spawn_enemies :: "nat \<Rightarrow> game \<Rightarrow> backend \<Rightarrow> nat \<Rightarrow> (error + pos list \<times> nat) option" where
  "spawn_enemies 0 self src cur = Some (Inr ([], cur))"
| "spawn_enemies (Suc n) self src cur =
     (case random_empty_cell self src cur of
        None \<Rightarrow> None
      | Some r \<Rightarrow>
          (case r of
             Inl e \<Rightarrow> Some (Inl e)
           | Inr (p, cur1) \<Rightarrow>
               (case spawn_enemies n self src cur1 of
                  None \<Rightarrow> None
                | Some rs \<Rightarrow>
                    (case rs of
                       Inl e \<Rightarrow> Some (Inl e)
                     | Inr (ps, cur2) \<Rightarrow> Some (Inr (p # ps, cur2))))))"

definition reset_game :: "game \<Rightarrow> backend \<Rightarrow> nat \<Rightarrow> (error + game \<times> nat) option" where
  "reset_game self src cur =
     (let self1 = self\<lparr>goal := (grid_size self div 2, grid_size self div 2)\<rparr>
      in case quantum_maze_visibility (grid_size self1) (0, 0) (Some (goal self1)) src cur of
           Inl e \<Rightarrow> Some (Inl e)
         | Inr (grid, cur0) \<Rightarrow>
             let self2 = self1\<lparr>maze := grid\<rparr>;
                 self3 = self2\<lparr>player1_pos := (0, 0)\<rparr>;
                 self4 = self3\<lparr>player2_pos := (grid_size self3 - 1, grid_size self3 - 1)\<rparr>
             in (case spawn_enemies 3 self4 src cur0 of
                   None \<Rightarrow> None
                 | Some r \<Rightarrow>
                     (case r of
                        Inl e \<Rightarrow> Some (Inl e)
                      | Inr (ps, cur1) \<Rightarrow>
                          Some (Inr (self4\<lparr>enemies := ps, running := True\<rparr>, cur1)))))"

subsection \<open>\<open>update\<close>: the adversaries' random walk\<close>

text \<open>
  \<open>random.choice\<close> is outside the program: \<open>rnd k\<close> is the number its \<open>k\<close>-th call draws,
  reduced to an index into the list of the five moves. \<open>advance_enemies\<close> is the loop over
  \<open>self.enemies\<close> with its accumulator \<open>new_enemies\<close>.
\<close>

definition enemy_moves :: "pos list" where
  "enemy_moves = [(0, 1), (0, - 1), (1, 0), (- 1, 0), (0, 0)]"

fun advance_enemies ::
  "game \<Rightarrow> (nat \<Rightarrow> nat) \<Rightarrow> nat \<Rightarrow> pos list \<Rightarrow> pos list \<Rightarrow> error + pos list \<times> nat" where
  "advance_enemies self rnd k [] new_enemies = Inr (new_enemies, k)"
| "advance_enemies self rnd k ((ex, ey) # rest) new_enemies =
     (let move = enemy_moves ! (rnd k mod length enemy_moves);
          nx = ex + fst move;
          ny = ey + snd move
      in if 0 \<le> nx \<and> nx < grid_size self \<and> 0 \<le> ny \<and> ny < grid_size self
         then (case cell (maze self) ny nx of
                 Inl e \<Rightarrow> Inl e
               | Inr is_open \<Rightarrow>
                   advance_enemies self rnd (Suc k) rest
                     (new_enemies @ [if is_open then (nx, ny) else (ex, ey)]))
         else advance_enemies self rnd (Suc k) rest (new_enemies @ [(ex, ey)]))"

definition update :: "game \<Rightarrow> (nat \<Rightarrow> nat) \<Rightarrow> nat \<Rightarrow> error + game \<times> nat" where
  "update self rnd k =
     (let self1 = self\<lparr>enemy_move_counter := enemy_move_counter self + 1\<rparr>
      in if enemy_move_delay self1 \<le> enemy_move_counter self1
         then let self2 = self1\<lparr>enemy_move_counter := 0\<rparr>
              in (case advance_enemies self2 rnd k (enemies self2) [] of
                    Inl e \<Rightarrow> Inl e
                  | Inr (new_enemies, k') \<Rightarrow> Inr (self2\<lparr>enemies := new_enemies\<rparr>, k'))
         else Inr (self1, k))"

subsection \<open>\<open>show_end_screen\<close> and \<open>check_game_over\<close>\<close>

text \<open>
  The input is the list of the batches that the successive calls of \<open>pygame.event.get()\<close>
  return, followed by silence. A call ends in one of four ways: it returns, it raises, the
  process exits, or it waits for ever.
\<close>

datatype key = K_r | K_q | K_UP | K_DOWN | K_LEFT | K_RIGHT | K_other

datatype event = QUIT | KEYDOWN key | OTHER_EVENT

datatype 'a flow = Returns 'a | Raises error | Exits | Hangs

text \<open>The \<open>for event in pygame.event.get()\<close> loop of the end screen over one batch.\<close>

fun end_screen_events ::
  "event list \<Rightarrow> game \<Rightarrow> backend \<Rightarrow> nat \<Rightarrow> bool \<Rightarrow> (game \<times> nat \<times> bool) flow" where
  "end_screen_events [] self src cur waiting = Returns (self, cur, waiting)"
| "end_screen_events (ev # evs) self src cur waiting =
     (case ev of
        QUIT \<Rightarrow> Exits
      | KEYDOWN k \<Rightarrow>
          if k = K_r
          then (case reset_game self src cur of
                  None \<Rightarrow> Hangs
                | Some r \<Rightarrow>
                    (case r of
                       Inl e \<Rightarrow> Raises e
                     | Inr (self', cur') \<Rightarrow> end_screen_events evs self' src cur' False))
          else if k = K_q then Exits
          else end_screen_events evs self src cur waiting
      | OTHER_EVENT \<Rightarrow> end_screen_events evs self src cur waiting)"

text \<open>The \<open>while waiting\<close> loop.\<close>

fun end_screen_wait ::
  "event list list \<Rightarrow> game \<Rightarrow> backend \<Rightarrow> nat \<Rightarrow> (game \<times> nat \<times> event list list) flow" where
  "end_screen_wait [] self src cur = Hangs"
| "end_screen_wait (batch # later) self src cur =
     (case end_screen_events batch self src cur True of
        Returns (self', cur', waiting) \<Rightarrow>
          if waiting then end_screen_wait later self' src cur'
          else Returns (self', cur', later)
      | Raises e \<Rightarrow> Raises e
      | Exits \<Rightarrow> Exits
      | Hangs \<Rightarrow> Hangs)"

text \<open>
  \<open>show_end_screen\<close> puts its message on the screen and then waits. The first component
  of the result is the list of the messages shown.
\<close>

definition show_end_screen ::
  "string \<Rightarrow> game \<Rightarrow> backend \<Rightarrow> nat \<Rightarrow> event list list
     \<Rightarrow> string list \<times> (game \<times> nat \<times> event list list) flow" where
  "show_end_screen message self src cur input = ([message], end_screen_wait input self src cur)"

definition win_message :: string where
  "win_message = ''You win! Press R to restart or Q to quit.''"

definition lose_message :: string where
  "lose_message = ''Game Over! Press R to restart or Q to quit.''"

definition win_condition :: "game \<Rightarrow> bool" where
  "win_condition self \<longleftrightarrow> player1_pos self = goal self \<or> player2_pos self = goal self"

definition loss_condition :: "game \<Rightarrow> bool" where
  "loss_condition self \<longleftrightarrow>
     player1_pos self \<in> set (enemies self) \<or> player2_pos self \<in> set (enemies self)"

text \<open>
  The two \<open>if\<close> statements of \<open>check_game_over\<close>, one after the other: the second reads the
  object as the first left it.
\<close>

definition end_if ::
  "bool \<Rightarrow> string \<Rightarrow> game \<Rightarrow> backend \<Rightarrow> nat \<Rightarrow> event list list
     \<Rightarrow> string list \<times> (game \<times> nat \<times> event list list) flow" where
  "end_if cond message self src cur input =
     (if cond
      then (case show_end_screen message self src cur input of
              (shown, Returns (self', cur', input')) \<Rightarrow>
                (shown, Returns (self'\<lparr>running := False\<rparr>, cur', input'))
            | (shown, Raises e) \<Rightarrow> (shown, Raises e)
            | (shown, Exits) \<Rightarrow> (shown, Exits)
            | (shown, Hangs) \<Rightarrow> (shown, Hangs))
      else ([], Returns (self, cur, input)))"

definition check_game_over ::
  "game \<Rightarrow> backend \<Rightarrow> nat \<Rightarrow> event list list
     \<Rightarrow> string list \<times> (game \<times> nat \<times> event list list) flow" where
  "check_game_over self src cur input =
     (case end_if (win_condition self) win_message self src cur input of
        (shown1, Returns (self1, cur1, input1)) \<Rightarrow>
          (case end_if (loss_condition self1) lose_message self1 src cur1 input1 of
             (shown2, r) \<Rightarrow> (shown1 @ shown2, r))
      | (shown1, Raises e) \<Rightarrow> (shown1, Raises e)
      | (shown1, Exits) \<Rightarrow> (shown1, Exits)
      | (shown1, Hangs) \<Rightarrow> (shown1, Hangs))"

subsection \<open>The clamp of the specification\<close>

text \<open>
  The clamp of the specification, in its words: a value below the interval goes to the
  lower end, a value above it to the upper end, a value inside stays.
\<close>

definition clamp_to :: "int \<Rightarrow> int \<Rightarrow> int \<Rightarrow> int" where
  "clamp_to lo hi v = (if v < lo then lo else if hi < v then hi else v)"

subsection \<open>Notions used to state the properties\<close>

text \<open>
  The \<open>j\<close>-th raw draw of a sampler that started at cursor \<open>cur\<close> and takes \<open>n\<close> bits per
  shot.
\<close>

definition raw_draw :: "backend \<Rightarrow> nat \<Rightarrow> nat \<Rightarrow> nat \<Rightarrow> int" where
  "raw_draw src n cur j = binary_value (map src [cur + j * n ..< cur + j * n + n])"

text \<open>
  The specification's account of the batch: the outcomes of the count table in its order,
  each as often as it was measured, those not below \<open>max_value\<close> left out.
\<close>

definition survivors :: "int \<Rightarrow> counts \<Rightarrow> int list" where
  "survivors max_value cnts =
     concat (map (\<lambda>(key, c). replicate c (binary_value key))
                 (filter (\<lambda>(key, c). binary_value key < max_value) cnts))"

text \<open>A backend that measures the given bits and then zeros for ever.\<close>

definition bits_backend :: "bool list \<Rightarrow> backend" where
  "bits_backend bits i = (i < length bits \<and> bits ! i)"

definition demo_src :: backend where
  "demo_src = bits_backend [True, True, False, True]"

text \<open>A grid of \<open>N\<close> rows of \<open>N\<close> cells.\<close>

definition square_grid :: "int \<Rightarrow> bool list list \<Rightarrow> bool" where
  "square_grid N grid \<longleftrightarrow> length grid = nat N \<and> (\<forall>row \<in> set grid. length row = nat N)"

definition zero_src :: backend where
  "zero_src = bits_backend []"

text \<open>A position that is inside the grid and whose cell is open.\<close>

definition open_at :: "game \<Rightarrow> pos \<Rightarrow> bool" where
  "open_at self p =
     (case p of (x, y) \<Rightarrow>
        0 \<le> x \<and> x < grid_size self \<and> 0 \<le> y \<and> y < grid_size self \<and>
        cell (maze self) y x = Inr True)"

text \<open>What \<open>random_empty_cell\<close> accepts as a spawn cell.\<close>

definition spawn_ok :: "game \<Rightarrow> pos \<Rightarrow> bool" where
  "spawn_ok self p \<longleftrightarrow>
     open_at self p \<and> p \<noteq> player1_pos self \<and> p \<noteq> player2_pos self \<and> p \<noteq> goal self"

text \<open>A game on a 3 by 3 grid in which a move to the right blocks player 1 only.\<close>

definition move_demo_game :: game where
  "move_demo_game =
     \<lparr>grid_size = 3, enemy_move_delay = 5, enemy_move_counter = 0, goal = (1, 1),
      maze = [[True, False, False], [False, True, False], [False, True, True]],
      player1_pos = (0, 0), player2_pos = (2, 2), enemies = [], running = True\<rparr>"

text \<open>
  The object as \<open>__init__\<close> has it when it calls \<open>reset_game\<close>: the size, the delay and the
  counter are set; the attributes that \<open>reset_game\<close> creates hold placeholders.
\<close>

definition new_game :: "int \<Rightarrow> game" where
  "new_game N =
     \<lparr>grid_size = N, enemy_move_delay = 5, enemy_move_counter = 0, goal = (0, 0), maze = [],
      player1_pos = (0, 0), player2_pos = (0, 0), enemies = [], running = False\<rparr>"

text \<open>
  A backend, and the 3 by 3 game that \<open>reset_game\<close> builds from it: the only open cell
  beside start and goal is \<open>(1, 0)\<close>, and every spawn search draws \<open>x = 1\<close>, \<open>y = 0\<close>.
\<close>

definition dup_src :: backend where
  "dup_src i = (i = 1 \<or> i = 10 \<or> i = 14 \<or> i = 18)"

definition dup_game :: game where
  "dup_game =
     \<lparr>grid_size = 3, enemy_move_delay = 5, enemy_move_counter = 0, goal = (1, 1),
      maze = [[True, True, False], [False, True, False], [False, False, False]],
      player1_pos = (0, 0), player2_pos = (2, 2), enemies = [(1, 0), (1, 0), (1, 0)],
      running = True\<rparr>"

text \<open>The same on the default 10 by 10 grid.\<close>

definition corner_src :: backend where
  "corner_src i = (i = 8 \<or> i = 103 \<or> i = 111 \<or> i = 119)"

definition corner_game :: game where
  "corner_game =
     \<lparr>grid_size = 10, enemy_move_delay = 5, enemy_move_counter = 0, goal = (5, 5),
      maze = (replicate 10 (replicate 10 False))
               [0 := [True, True, False, False, False, False, False, False, False, False],
                5 := [False, False, False, False, False, True, False, False, False, False]],
      player1_pos = (0, 0), player2_pos = (9, 9), enemies = [(1, 0), (1, 0), (1, 0)],
      running = True\<rparr>"

text \<open>
  One step of an adversary: it stays, or it goes to one of the four neighbouring cells,
  which then is inside the grid and open.
\<close>

definition adjacent :: "pos \<Rightarrow> pos \<Rightarrow> bool" where
  "adjacent p q \<longleftrightarrow>
     (case p of (x, y) \<Rightarrow> q = (x, y + 1) \<or> q = (x, y - 1) \<or> q = (x + 1, y) \<or> q = (x - 1, y))"

definition enemy_step :: "game \<Rightarrow> pos \<Rightarrow> pos \<Rightarrow> bool" where
  "enemy_step self old new \<longleftrightarrow> new = old \<or> (adjacent old new \<and> open_at self new)"

text \<open>
  The states of an episode: what a reset returns (from the object of \<open>__init__\<close> or from
  any later object), and what \<open>move_players\<close>, \<open>update\<close> and the end of the run loop make of
  such a state.
\<close>

inductive reachable :: "game \<Rightarrow> bool" where
  start: "reset_game self0 src cur = Some (Inr (self, cur')) \<Longrightarrow> reachable self"
| moved: "reachable self \<Longrightarrow> move_players self move = Inr self' \<Longrightarrow> reachable self'"
| advanced: "reachable self \<Longrightarrow> update self rnd k = Inr (self', k') \<Longrightarrow> reachable self'"
| stopped: "reachable self \<Longrightarrow> reachable (self\<lparr>running := False\<rparr>)"

definition on_open_cells :: "game \<Rightarrow> bool" where
  "on_open_cells self \<longleftrightarrow>
     square_grid (grid_size self) (maze self) \<and> (\<forall>e \<in> set (enemies self). open_at self e)"

text \<open>
  The state after a reset that found the move counter at 4, so that the next \<open>update\<close>
  moves the adversaries; and a state in which player 1 stands on the goal and on an
  adversary.
\<close>

definition walk_game :: game where
  "walk_game = dup_game\<lparr>enemy_move_counter := 4\<rparr>"

definition tie_game :: game where
  "tie_game = dup_game\<lparr>player1_pos := (1, 1), enemies := [(1, 1), (1, 0), (1, 0)]\<rparr>"

text \<open>
  The draws of the spawn searches. From cursor \<open>c\<close> on, every sampler call takes the next
  raw draw that is below \<open>N\<close>, so the successive results of the calls are the in-range
  values among the raw draws, in their order; a spawn search reads them two by two, as
  \<open>x\<close> and \<open>y\<close>. \<open>spawn_cells self src c K\<close> are the cells that the searches accept among the
  first \<open>K\<close> raw draws.
\<close>

fun two_by_two :: "'a list \<Rightarrow> ('a \<times> 'a) list" where
  "two_by_two (a # b # rest) = (a, b) # two_by_two rest"
| "two_by_two [a] = []"
| "two_by_two [] = []"

definition in_range_draws :: "int \<Rightarrow> backend \<Rightarrow> nat \<Rightarrow> nat \<Rightarrow> int list" where
  "in_range_draws N src c K =
     filter (\<lambda>v. v < N) (map (raw_draw src (bit_length N) c) [0 ..< K])"

definition spawn_cells :: "game \<Rightarrow> backend \<Rightarrow> nat \<Rightarrow> nat \<Rightarrow> pos list" where
  "spawn_cells self src c K =
     filter (spawn_ok self) (two_by_two (in_range_draws (grid_size self) src c K))"

text \<open>The object as \<open>reset_game\<close> has it when the spawn searches begin, with the grid drawn.\<close>

definition before_spawn :: "game \<Rightarrow> bool list list \<Rightarrow> game" where
  "before_spawn self grid =
     self\<lparr>goal := (grid_size self div 2, grid_size self div 2), maze := grid,
          player1_pos := (0, 0), player2_pos := (grid_size self - 1, grid_size self - 1)\<rparr>"

section \<open>Properties\<close>

subsection \<open>The entangled move\<close>

text \<open>
  Claim C4. On a grid of size \<open>N\<close> (at least one cell wide, so that \<open>[0, N-1]\<close> is an
  interval), \<open>entangled_move\<close> adds the move to the first position and subtracts it from
  the second, and clamps each of the four coordinates on its own to \<open>[0, N-1]\<close>.
\<close>

theorem entangled_move_clamped:
  assumes "1 \<le> N"
  shows "entangled_move (x1, y1) (x2, y2) (dx, dy) N =
           ((clamp_to 0 (N - 1) (x1 + dx), clamp_to 0 (N - 1) (y1 + dy)),
            (clamp_to 0 (N - 1) (x2 - dx), clamp_to 0 (N - 1) (y2 - dy)))"
  using assms by (simp add: entangled_move_def clamp_to_def Let_def max_def min_def)

theorem entangled_move_clamped_witness:
  "(1::int) \<le> 10 \<and>
   entangled_move (9, 0) (0, 4) (1, -1) 10 = ((9, 0), (0, 5)) \<and>
   clamp_to 0 (10 - 1) (9 + 1) = 9 \<and> clamp_to 0 (10 - 1) (0 + - 1) = 0 \<and>
   clamp_to 0 (10 - 1) (0 - 1) = 0 \<and> clamp_to 0 (10 - 1) (4 - - 1) = 5"
  using entangled_move_clamped [of 10 9 0 0 4 1 "- 1"]
  by (simp add: clamp_to_def)

text \<open>
  Claim C10. When none of the four candidate coordinates leaves \<open>[0, N - 1]\<close> on a grid of size \<open>N\<close>, the
  move keeps the sum of the two x coordinates and the sum of the two y coordinates.
\<close>

theorem entangled_move_sums:
  assumes "0 \<le> x1 + dx" "x1 + dx \<le> N - 1"
      and "0 \<le> y1 + dy" "y1 + dy \<le> N - 1"
      and "0 \<le> x2 - dx" "x2 - dx \<le> N - 1"
      and "0 \<le> y2 - dy" "y2 - dy \<le> N - 1"
      and "entangled_move (x1, y1) (x2, y2) (dx, dy) N =
             ((new_x1, new_y1), (new_x2, new_y2))"
  shows "new_x1 + new_x2 = x1 + x2 \<and> new_y1 + new_y2 = y1 + y2"
  using assms by (auto simp add: entangled_move_def Let_def max_def min_def)

theorem entangled_move_sums_witness:
  "entangled_move (2, 2) (7, 7) (1, 0) 10 = ((3, 2), (6, 7)) \<and>
   (3::int) + 6 = 2 + 7 \<and> (2::int) + 7 = 2 + 7"
  using entangled_move_sums [of 2 1 10 2 0 7 7 3 2 6 7]
  by (simp add: entangled_move_def)

subsection \<open>The single-draw sampler\<close>

lemma foldl_bits_nonneg: "0 \<le> a \<Longrightarrow> 0 \<le> foldl (\<lambda>a b. 2 * a + (if b then 1 else 0)) (a::int) bits"
  by (induction bits arbitrary: a) auto

lemma binary_value_nonneg: "0 \<le> binary_value bits"
  by (simp add: binary_value_def foldl_bits_nonneg)

lemma bit_length_nat_pos: "0 < n \<Longrightarrow> 0 < bit_length_nat n"
  by (subst bit_length_nat.simps) simp

lemma bit_length_pos: "v \<noteq> 0 \<Longrightarrow> 0 < bit_length v"
  by (simp add: bit_length_def bit_length_nat_pos)

lemma shot_value: "0 < n \<Longrightarrow> int_base2 (map src [cur ..< cur + n]) = Inr (raw_draw src n cur 0)"
  by (simp add: int_base2_def raw_draw_def)

lemma loop_step:
  "0 < n \<Longrightarrow> quantum_random_int_loop mv n src cur =
     (if raw_draw src n cur 0 < mv then Some (Inr (raw_draw src n cur 0, cur + n))
      else quantum_random_int_loop mv n src (cur + n))"
  by (subst quantum_random_int_loop.simps)
     (simp add: run_shot_def int_base2_def raw_draw_def)

lemma raw_draw_shift: "raw_draw src n (cur + n) j = raw_draw src n cur (Suc j)"
  by (simp add: raw_draw_def ac_simps)

lemma loop_first_in_range:
  "0 < n \<Longrightarrow> raw_draw src n cur k < mv \<Longrightarrow> (\<forall>j<k. \<not> raw_draw src n cur j < mv) \<Longrightarrow>
   quantum_random_int_loop mv n src cur = Some (Inr (raw_draw src n cur k, cur + Suc k * n))"
proof (induction k arbitrary: cur)
  case 0
  then show ?case by (subst loop_step) simp_all
next
  case (Suc k)
  have "\<not> raw_draw src n cur 0 < mv" using Suc.prems(3) by blast
  moreover have "quantum_random_int_loop mv n src (cur + n)
      = Some (Inr (raw_draw src n (cur + n) k, cur + n + Suc k * n))"
    using Suc.prems by (intro Suc.IH) (auto simp: raw_draw_shift)
  ultimately show ?case using Suc.prems(1)
    by (subst loop_step) (simp_all add: raw_draw_shift add.assoc)
qed

lemma loop_sound_aux:
  "quantum_random_int_loop mv n src cur = Some r \<Longrightarrow>
   0 < n \<longrightarrow> (\<exists>k. raw_draw src n cur k < mv \<and> (\<forall>j<k. \<not> raw_draw src n cur j < mv) \<and>
       r = Inr (raw_draw src n cur k, cur + Suc k * n))"
proof (induction mv n src cur r rule: quantum_random_int_loop.raw_induct[rotated 1, consumes 1])
  case (1 loop mv n src cur r)
  show ?case
  proof
    assume n: "0 < n"
    show "\<exists>k. raw_draw src n cur k < mv \<and> (\<forall>j<k. \<not> raw_draw src n cur j < mv) \<and>
       r = Inr (raw_draw src n cur k, cur + Suc k * n)"
    proof (cases "raw_draw src n cur 0 < mv")
      case True
      with 1(2) n have "r = Inr (raw_draw src n cur 0, cur + n)"
        by (simp add: run_shot_def shot_value)
      with True show ?thesis by (intro exI[of _ 0]) simp
    next
      case False
      with 1(2) n have "loop mv n src (cur + n) = Some r"
        by (simp add: run_shot_def shot_value)
      from 1(1)[OF this] n obtain k where k: "raw_draw src n (cur + n) k < mv"
        "\<forall>j<k. \<not> raw_draw src n (cur + n) j < mv"
        "r = Inr (raw_draw src n (cur + n) k, cur + n + Suc k * n)"
        by blast
      have "\<forall>j<Suc k. \<not> raw_draw src n cur j < mv"
      proof (intro allI impI)
        fix j assume "j < Suc k"
        then show "\<not> raw_draw src n cur j < mv"
          using False k(2) by (cases j) (auto simp: raw_draw_shift)
      qed
      with k show ?thesis
        by (intro exI[of _ "Suc k"]) (simp add: raw_draw_shift add.assoc)
    qed
  qed
qed

lemma loop_sound:
  "quantum_random_int_loop mv n src cur = Some r \<Longrightarrow> 0 < n \<Longrightarrow>
   \<exists>k. raw_draw src n cur k < mv \<and> (\<forall>j<k. \<not> raw_draw src n cur j < mv) \<and>
       r = Inr (raw_draw src n cur k, cur + Suc k * n)"
  using loop_sound_aux by blast

lemma bit_length_3: "bit_length 3 = 2" by code_simp
lemma demo_draw_0: "raw_draw demo_src 2 0 0 = 3" by code_simp
lemma demo_draw_1: "raw_draw demo_src 2 0 (Suc 0) = 1" by code_simp


text \<open>
  Claim C6. For \<open>max_value > 0\<close>, whatever the backend measures: every result of
  \<open>quantum_random_int\<close> is a value \<open>v\<close> with \<open>0 \<le> v < max_value\<close> (never an error); the
  result is the first raw draw of \<open>max_value.bit_length()\<close> bits that is below
  \<open>max_value\<close>, all earlier draws having been rejected; and when no draw is ever in range
  the sampler does not return.
\<close>

theorem quantum_random_int_in_range:
  assumes "0 < max_value"
  shows "(\<forall>r. quantum_random_int max_value src cur = Some r \<longrightarrow>
            (\<exists>v cur'. r = Inr (v, cur') \<and> 0 \<le> v \<and> v < max_value)) \<and>
         (\<forall>k. raw_draw src (bit_length max_value) cur k < max_value \<and>
              (\<forall>j<k. \<not> raw_draw src (bit_length max_value) cur j < max_value) \<longrightarrow>
              quantum_random_int max_value src cur =
                Some (Inr (raw_draw src (bit_length max_value) cur k,
                           cur + Suc k * bit_length max_value))) \<and>
         ((\<forall>k. \<not> raw_draw src (bit_length max_value) cur k < max_value) \<longrightarrow>
            quantum_random_int max_value src cur = None)"
proof -
  have n: "0 < bit_length max_value" using assms by (simp add: bit_length_pos)
  have a: "\<exists>v cur'. r = Inr (v, cur') \<and> 0 \<le> v \<and> v < max_value"
    if "quantum_random_int max_value src cur = Some r" for r
    using loop_sound [OF that [unfolded quantum_random_int_def] n]
    by (auto simp: raw_draw_def binary_value_nonneg)
  have b: "quantum_random_int max_value src cur =
             Some (Inr (raw_draw src (bit_length max_value) cur k,
                        cur + Suc k * bit_length max_value))"
    if "raw_draw src (bit_length max_value) cur k < max_value"
       "\<forall>j<k. \<not> raw_draw src (bit_length max_value) cur j < max_value" for k
    unfolding quantum_random_int_def using n that by (rule loop_first_in_range)
  have c: "quantum_random_int max_value src cur = None"
    if "\<forall>k. \<not> raw_draw src (bit_length max_value) cur k < max_value"
  proof (cases "quantum_random_int max_value src cur")
    case None then show ?thesis .
  next
    case (Some r)
    from loop_sound [OF Some [unfolded quantum_random_int_def] n] that
    show ?thesis by blast
  qed
  from a b c show ?thesis by blast
qed

theorem quantum_random_int_in_range_witness:
  "(0::int) < 3 \<and> quantum_random_int 3 demo_src 0 = Some (Inr (1, 4)) \<and> (0::int) \<le> 1 \<and> (1::int) < 3"
proof -
  have "\<forall>j<1. \<not> raw_draw demo_src (bit_length 3) 0 j < 3" by (simp add: bit_length_3 demo_draw_0)
  moreover have "raw_draw demo_src (bit_length 3) 0 1 < 3" by (simp add: bit_length_3 demo_draw_1)
  moreover have "(0::int) < 3" by simp
  ultimately have "quantum_random_int 3 demo_src 0 =
      Some (Inr (raw_draw demo_src (bit_length 3) 0 1, 0 + Suc 1 * bit_length 3))"
    using quantum_random_int_in_range [of 3 demo_src 0] by blast
  then show ?thesis by (simp add: bit_length_3 demo_draw_1)
qed

subsection \<open>The batch sampler\<close>

lemma batch_values_survivors:
  "batch_values mv cnts vals = Inr out \<Longrightarrow> out = vals @ survivors mv cnts"
proof (induction mv cnts vals rule: batch_values.induct)
  case (1 mv vals)
  then show ?case by (simp add: survivors_def)
next
  case (2 mv key c rest vals)
  then show ?case
    by (auto simp: survivors_def int_base2_def split: if_splits)
qed

lemma batch_values_returns:
  "\<forall>(key, c) \<in> set cnts. key \<noteq> [] \<Longrightarrow> \<exists>out. batch_values mv cnts vals = Inr out"
  by (induction mv cnts vals rule: batch_values.induct) (auto simp: int_base2_def)

lemma survivors_in_range: "v \<in> set (survivors mv cnts) \<Longrightarrow> 0 \<le> v \<and> v < mv"
  by (auto simp: survivors_def binary_value_nonneg)

lemma quantum_random_int_batch_returns:
  "\<forall>(key, c) \<in> set cnts. key \<noteq> [] \<Longrightarrow> \<exists>vals. quantum_random_int_batch mv B cnts = Inr vals"
  using batch_values_returns [of cnts mv "[]"]
  by (auto simp: quantum_random_int_batch_def)

text \<open>
  Claim C7. For \<open>max_value > 0\<close> and a batch size \<open>B\<close> (a number of shots, \<open>B \<ge> 0\<close>),
  whatever count table the simulator returns: the batch has at most \<open>B\<close> elements, each
  of them in \<open>[0, max_value)\<close>; it is the first \<open>B\<close> of the in-range outcomes, the others
  being discarded, and so may be shorter than \<open>B\<close>.
\<close>

theorem quantum_random_int_batch_bounds:
  assumes "0 < max_value" and "0 \<le> B"
      and "quantum_random_int_batch max_value B cnts = Inr vals"
  shows "int (length vals) \<le> B \<and> (\<forall>v \<in> set vals. 0 \<le> v \<and> v < max_value) \<and>
         vals = take (nat B) (survivors max_value cnts)"
proof -
  from assms(3) obtain out where out: "batch_values max_value cnts [] = Inr out"
    and vals: "vals = py_prefix out B"
    by (auto simp: quantum_random_int_batch_def split: sum.splits)
  from batch_values_survivors [OF out] have "out = survivors max_value cnts" by simp
  with vals assms(2) have eq: "vals = take (nat B) (survivors max_value cnts)"
    by (simp add: py_prefix_def)
  have "int (length vals) \<le> B" using eq assms(2) by simp
  moreover have "\<forall>v \<in> set vals. 0 \<le> v \<and> v < max_value"
    using eq survivors_in_range by (metis in_set_takeD)
  ultimately show ?thesis using eq by blast
qed

theorem quantum_random_int_batch_bounds_witness:
  "(0::int) < 3 \<and> (0::int) \<le> 4 \<and>
   quantum_random_int_batch 3 4 [([True, True], 2), ([False, True], 1), ([True, False], 1)] =
     Inr [1, 2] \<and>
   int (length [1::int, 2]) \<le> 4 \<and>
   [1, 2] = take (nat 4) (survivors 3 [([True, True], 2), ([False, True], 1), ([True, False], 1)])"
proof -
  have e: "quantum_random_int_batch 3 4 [([True, True], 2), ([False, True], 1), ([True, False], 1)] =
     Inr [1, 2]"
    by (simp add: quantum_random_int_batch_def int_base2_def binary_value_def py_prefix_def)
  have p: "(0::int) < 3" "(0::int) \<le> 4" by simp_all
  note c = quantum_random_int_batch_bounds [OF p e]
  show ?thesis
    apply (intro conjI)
        apply (rule p(1))
       apply (rule p(2))
      apply (rule e)
     apply (rule c [THEN conjunct1])
    apply (rule c [THEN conjunct2, THEN conjunct2])
    done
qed

subsection \<open>The maze generator\<close>

lemma py_slot_less: "py_slot len i = Some j \<Longrightarrow> j < len"
  by (auto simp: py_slot_def split: if_splits)

lemma py_store_length: "py_store xs i v = Inr ys \<Longrightarrow> length ys = length xs"
  by (auto simp: py_store_def split: option.splits)

lemma py_index_store_same:
  assumes "py_store xs i v = Inr ys"
  shows "py_index ys i = Inr v"
proof -
  from assms obtain j where j: "py_slot (length xs) i = Some j" and ys: "ys = xs[j := v]"
    by (auto simp: py_store_def split: option.splits)
  from j have "j < length xs" by (rule py_slot_less)
  with j ys show ?thesis by (simp add: py_index_def)
qed

lemma py_index_store_keeps:
  "py_store xs i v = Inr ys \<Longrightarrow> py_index xs k = Inr v \<Longrightarrow> py_index ys k = Inr v"
  by (auto simp: py_store_def py_index_def nth_list_update dest: py_slot_less split: option.splits)

lemma set_cell_length: "set_cell grid y x v = Inr grid' \<Longrightarrow> length grid' = length grid"
  by (auto simp: set_cell_def split: option.splits sum.splits)

lemma set_cell_same:
  assumes "set_cell grid y x v = Inr grid'"
  shows "cell grid' y x = Inr v"
proof -
  from assms obtain j row where j: "py_slot (length grid) y = Some j"
    and row: "py_store (grid ! j) x v = Inr row" and g': "grid' = grid[j := row]"
    by (auto simp: set_cell_def split: option.splits sum.splits)
  from j have "j < length grid" by (rule py_slot_less)
  with j g' have "py_index grid' y = Inr row" by (simp add: py_index_def)
  with py_index_store_same [OF row] show ?thesis by (simp add: cell_def)
qed

lemma set_cell_keeps:
  assumes "set_cell grid y x v = Inr grid'" and "cell grid y' x' = Inr v"
  shows "cell grid' y' x' = Inr v"
proof -
  from assms(1) obtain j row where j: "py_slot (length grid) y = Some j"
    and row: "py_store (grid ! j) x v = Inr row" and g': "grid' = grid[j := row]"
    by (auto simp: set_cell_def split: option.splits sum.splits)
  from assms(2) obtain k where k: "py_slot (length grid) y' = Some k"
    and c: "py_index (grid ! k) x' = Inr v"
    by (auto simp: cell_def py_index_def split: option.splits)
  have jl: "j < length grid" and kl: "k < length grid"
    using j k by (auto dest: py_slot_less)
  show ?thesis
  proof (cases "k = j")
    case True
    with c row have "py_index row x' = Inr v" by (auto intro: py_index_store_keeps)
    with True k jl show ?thesis by (simp add: cell_def py_index_def g')
  next
    case False
    with k kl c show ?thesis by (simp add: cell_def py_index_def g')
  qed
qed

lemma fill_rows_shape:
  "fill_rows src n k cur grid = (grid', cur') \<Longrightarrow>
   length grid' = length grid + k \<and> cur' = cur + k * n \<and>
   ((\<forall>row \<in> set grid. length row = n) \<longrightarrow> (\<forall>row \<in> set grid'. length row = n))"
  by (induction src n k cur grid rule: fill_rows.induct) (auto simp: run_shot_def)

lemma cell_in_range:
  "0 \<le> y \<Longrightarrow> y < int (length grid) \<Longrightarrow> 0 \<le> x \<Longrightarrow> x < int (length (grid ! nat y)) \<Longrightarrow>
   cell grid y x = Inr (grid ! nat y ! nat x)"
  by (simp add: cell_def py_index_def py_slot_def)

lemma set_cell_rows:
  assumes "set_cell grid y x v = Inr grid'" and "\<forall>row \<in> set grid. length row = n"
  shows "\<forall>row \<in> set grid'. length row = n"
proof -
  from assms(1) obtain j row where j: "py_slot (length grid) y = Some j"
    and row: "py_store (grid ! j) x v = Inr row" and g': "grid' = grid[j := row]"
    by (auto simp: set_cell_def split: option.splits sum.splits)
  from j have jl: "j < length grid" by (rule py_slot_less)
  with assms(2) have "length (grid ! j) = n" by simp
  with py_store_length [OF row] have "length row = n" by simp
  with assms(2) g' show ?thesis by (auto dest: set_update_subset_insert [THEN subsetD])
qed

lemma set_cell_square_grid: "set_cell grid y x v = Inr grid' \<Longrightarrow> square_grid N grid \<Longrightarrow> square_grid N grid'"
  unfolding square_grid_def using set_cell_length set_cell_rows by metis

lemma maze_square_grid:
  assumes "quantum_maze_visibility N start goal_arg src cur = Inr (grid, cur')"
  shows "square_grid N grid \<and> cur' = cur + nat N * nat N"
proof -
  obtain g0 c0 where f: "fill_rows src (nat N) (nat N) cur [] = (g0, c0)" by force
  from fill_rows_shape [OF f] have sq: "square_grid N g0" and c0: "c0 = cur + nat N * nat N"
    by (simp_all add: square_grid_def)
  obtain sx sy where st: "start = (sx, sy)" by force
  obtain gx gy where g: "(gx, gy) = (case goal_arg of None \<Rightarrow> (N div 2, N div 2) | Some g \<Rightarrow> g)"
    by (metis surj_pair)
  from assms f st g obtain g1 where s1: "set_cell g0 sy sx True = Inr g1"
    and s2: "set_cell g1 gy gx True = Inr grid" and c: "cur' = c0"
    by (auto simp: quantum_maze_visibility_def Let_def split: sum.splits prod.splits option.splits)
  from set_cell_square_grid [OF s2 set_cell_square_grid [OF s1 sq]] c c0 show ?thesis by simp
qed

lemma set_cell_returns:
  "square_grid N grid \<Longrightarrow> 0 \<le> y \<Longrightarrow> y < N \<Longrightarrow> 0 \<le> x \<Longrightarrow> x < N \<Longrightarrow> \<exists>grid'. set_cell grid y x v = Inr grid'"
  by (auto simp: square_grid_def set_cell_def py_slot_def py_store_def)

lemma maze_returns:
  assumes "0 \<le> sx" "sx < N" "0 \<le> sy" "sy < N"
      and "(gx, gy) = (case goal_arg of None \<Rightarrow> (N div 2, N div 2) | Some g \<Rightarrow> g)"
      and "0 \<le> gx" "gx < N" "0 \<le> gy" "gy < N"
  shows "\<exists>grid. quantum_maze_visibility N (sx, sy) goal_arg src cur = Inr (grid, cur + nat N * nat N)"
proof -
  obtain g0 c0 where f: "fill_rows src (nat N) (nat N) cur [] = (g0, c0)" by force
  from fill_rows_shape [OF f] have sq: "square_grid N g0" and c0: "c0 = cur + nat N * nat N"
    by (simp_all add: square_grid_def)
  from set_cell_returns [OF sq assms(3,4,1,2)] obtain g1 where s1: "set_cell g0 sy sx True = Inr g1"
    by blast
  from set_cell_returns [OF set_cell_square_grid [OF s1 sq] assms(8,9,6,7)]
  obtain g2 where s2: "set_cell g1 gy gx True = Inr g2" by blast
  from f s1 s2 c0 assms(5) show ?thesis
    by (cases goal_arg) (auto simp: quantum_maze_visibility_def Let_def split: prod.splits)
qed

lemma maze_demo:
  "quantum_maze_visibility 2 (0, 0) None zero_src 0 = Inr ([[True, False], [False, True]], 4)"
  by code_simp

lemma maze_forced_open:
  assumes "quantum_maze_visibility N (sx, sy) goal_arg src cur = Inr (grid, cur')"
      and "(gx, gy) = (case goal_arg of None \<Rightarrow> (N div 2, N div 2) | Some g \<Rightarrow> g)"
  shows "cell grid sy sx = Inr True \<and> cell grid gy gx = Inr True"
proof -
  obtain g0 c0 where f: "fill_rows src (nat N) (nat N) cur [] = (g0, c0)" by force
  from assms f obtain g1 where s1: "set_cell g0 sy sx True = Inr g1"
    and s2: "set_cell g1 gy gx True = Inr grid"
    by (auto simp: quantum_maze_visibility_def Let_def split: sum.splits prod.splits option.splits)
  from s1 have "cell g1 sy sx = Inr True" by (rule set_cell_same)
  with s2 have "cell grid sy sx = Inr True" by (rule set_cell_keeps)
  moreover from s2 have "cell grid gy gx = Inr True" by (rule set_cell_same)
  ultimately show ?thesis by blast
qed

text \<open>
  Claim C3. Whatever the backend measures, for every size, start and goal (the goal given
  or defaulting to the centre): when \<open>quantum_maze_visibility\<close> returns a grid, the start
  cell and the goal cell of that grid are open. It returns whenever both cells lie inside
  the grid (\<open>maze_returns\<close>); the cells are addressed as Python does, \<open>grid[y][x]\<close>.
\<close>

theorem maze_start_goal_open:
  assumes "quantum_maze_visibility N (sx, sy) goal_arg src cur = Inr (grid, cur')"
      and "(gx, gy) = (case goal_arg of None \<Rightarrow> (N div 2, N div 2) | Some g \<Rightarrow> g)"
  shows "cell grid sy sx = Inr True \<and> cell grid gy gx = Inr True"
  using assms by (rule maze_forced_open)

theorem maze_start_goal_open_witness:
  "quantum_maze_visibility 2 (0, 0) None zero_src 0 = Inr ([[True, False], [False, True]], 4) \<and>
   cell [[True, False], [False, True]] 0 0 = Inr True \<and>
   cell [[True, False], [False, True]] 1 1 = Inr True"
  using maze_start_goal_open [of 2 0 0 None zero_src 0 "[[True, False], [False, True]]" 4 1 1] maze_demo
  by simp

subsection \<open>Moving the players\<close>

lemma cell_square_grid:
  assumes "square_grid N grid" "0 \<le> y" "y < N" "0 \<le> x" "x < N"
  shows "cell grid y x = Inr (grid ! nat y ! nat x)"
proof -
  from assms have "nat y < length grid" by (simp add: square_grid_def)
  with assms(1) have "length (grid ! nat y) = nat N" by (simp add: square_grid_def)
  with assms show ?thesis by (intro cell_in_range) (simp_all add: square_grid_def)
qed

lemma is_valid_open_at:
  assumes "square_grid (grid_size self) (maze self)"
  shows "is_valid self p = Inr (open_at self p)"
proof (cases p)
  case (Pair x y)
  show ?thesis
  proof (cases "0 \<le> x \<and> x < grid_size self \<and> 0 \<le> y \<and> y < grid_size self")
    case True
    with cell_square_grid [OF assms, of y x] Pair show ?thesis
      by (auto simp: is_valid_def open_at_def)
  next
    case False
    with Pair show ?thesis by (auto simp: is_valid_def open_at_def)
  qed
qed

text \<open>
  Claim C5. In a game whose maze is the \<open>grid_size\<close> by \<open>grid_size\<close> grid, \<open>move_players\<close>
  raises nothing and updates each player on its own: player 1 goes to its candidate cell
  exactly when that cell is inside the grid and open, and stays otherwise; the same holds
  for player 2 with its candidate, whatever happened to player 1.
\<close>

theorem move_players_commit:
  assumes "square_grid (grid_size self) (maze self)"
      and "entangled_move (player1_pos self) (player2_pos self) move (grid_size self) = (c1, c2)"
  shows "move_players self move =
           Inr (self\<lparr>player1_pos := (if open_at self c1 then c1 else player1_pos self),
                     player2_pos := (if open_at self c2 then c2 else player2_pos self)\<rparr>)"
proof -
  have v1: "is_valid self c1 = Inr (open_at self c1)" using assms(1) by (rule is_valid_open_at)
  have v2: "is_valid (self\<lparr>player1_pos := c1\<rparr>) c2 = Inr (open_at self c2)"
    using is_valid_open_at [of "self\<lparr>player1_pos := c1\<rparr>" c2] assms(1)
    by (simp add: open_at_def)
  have v3: "is_valid self c2 = Inr (open_at self c2)" using assms(1) by (rule is_valid_open_at)
  show ?thesis using assms(2) v1 v2 v3 by (simp add: move_players_def Let_def)
qed


theorem move_players_commit_witness:
  "square_grid (grid_size move_demo_game) (maze move_demo_game) \<and>
   entangled_move (player1_pos move_demo_game) (player2_pos move_demo_game) (1, 0)
     (grid_size move_demo_game) = ((1, 0), (1, 2)) \<and>
   \<not> open_at move_demo_game (1, 0) \<and> open_at move_demo_game (1, 2) \<and>
   move_players move_demo_game (1, 0) = Inr (move_demo_game\<lparr>player2_pos := (1, 2)\<rparr>)"
proof -
  have sq: "square_grid (grid_size move_demo_game) (maze move_demo_game)"
    by (simp add: move_demo_game_def square_grid_def)
  have em: "entangled_move (player1_pos move_demo_game) (player2_pos move_demo_game) (1, 0)
     (grid_size move_demo_game) = ((1, 0), (1, 2))"
    by (simp add: move_demo_game_def entangled_move_def)
  have o1: "\<not> open_at move_demo_game (1, 0)"
    by (simp add: move_demo_game_def open_at_def cell_def py_index_def py_slot_def)
  have o2: "open_at move_demo_game (1, 2)"
    by (simp add: move_demo_game_def open_at_def cell_def py_index_def py_slot_def)
  from move_players_commit [OF sq em] o1 o2
  have "move_players move_demo_game (1, 0) = Inr (move_demo_game\<lparr>player2_pos := (1, 2)\<rparr>)"
    by (simp add: move_demo_game_def)
  with sq em o1 o2 show ?thesis by blast
qed

subsection \<open>Spawning the adversaries\<close>

lemma quantum_random_int_sound:
  assumes "0 < mv" and "quantum_random_int mv src cur = Some r"
  shows "\<exists>v c. r = Inr (v, c) \<and> 0 \<le> v \<and> v < mv"
proof -
  have n: "0 < bit_length mv" using assms(1) by (simp add: bit_length_pos)
  from loop_sound [OF assms(2) [unfolded quantum_random_int_def] n]
  show ?thesis by (auto simp: raw_draw_def binary_value_nonneg)
qed

lemma random_empty_cell_sound_aux:
  "random_empty_cell self src cur = Some r \<Longrightarrow>
   0 < grid_size self \<longrightarrow> (\<forall>p c. r = Inr (p, c) \<longrightarrow> spawn_ok self p)"
proof (induction self src cur r rule: random_empty_cell.raw_induct[rotated 1, consumes 1])
  case (1 rec self src cur r)
  show ?case
  proof (intro impI allI)
    fix p c
    assume N: "0 < grid_size self" and r: "r = Inr (p, c)"
    from 1(2) obtain rx where qx: "quantum_random_int (grid_size self) src cur = Some rx"
      by (cases "quantum_random_int (grid_size self) src cur") auto
    from quantum_random_int_sound [OF N qx] obtain x cur1
      where rx: "rx = Inr (x, cur1)" and x: "0 \<le> x" "x < grid_size self" by blast
    from 1(2) qx rx obtain ry where qy: "quantum_random_int (grid_size self) src cur1 = Some ry"
      by (cases "quantum_random_int (grid_size self) src cur1") auto
    from quantum_random_int_sound [OF N qy] obtain y cur2
      where ry: "ry = Inr (y, cur2)" and y: "0 \<le> y" "y < grid_size self" by blast
    from 1(2) qx rx qy ry r obtain is_open where c: "cell (maze self) y x = Inr is_open"
      by (cases "cell (maze self) y x") auto
    show "spawn_ok self p"
    proof (cases "is_open \<and> (x, y) \<notin> set [player1_pos self, player2_pos self, goal self]")
      case True
      with 1(2) qx rx qy ry c r have "p = (x, y)" by simp
      with True c x y show ?thesis by (simp add: spawn_ok_def open_at_def)
    next
      case False
      with 1(2) qx rx qy ry c have "rec self src cur2 = Some r" by auto
      from 1(1) [OF this] N r show ?thesis by blast
    qed
  qed
qed

lemma random_empty_cell_sound:
  "random_empty_cell self src cur = Some (Inr (p, c)) \<Longrightarrow> 0 < grid_size self \<Longrightarrow> spawn_ok self p"
  using random_empty_cell_sound_aux by blast

lemma spawn_enemies_sound:
  "spawn_enemies n self src cur = Some (Inr (ps, c)) \<Longrightarrow> 0 < grid_size self \<Longrightarrow>
   length ps = n \<and> (\<forall>p \<in> set ps. spawn_ok self p)"
proof (induction n arbitrary: cur ps c)
  case 0
  then show ?case by simp
next
  case (Suc n)
  from Suc.prems(1) obtain p cur1 qs where
    r: "random_empty_cell self src cur = Some (Inr (p, cur1))" and
    s: "spawn_enemies n self src cur1 = Some (Inr (qs, c))" and ps: "ps = p # qs"
    by (auto split: option.splits sum.splits prod.splits)
  from random_empty_cell_sound [OF r Suc.prems(2)] Suc.IH [OF s Suc.prems(2)] ps
  show ?case by simp
qed

subsection \<open>Reset\<close>

lemma reset_dup: "reset_game (new_game 3) dup_src 0 = Some (Inr (dup_game, 21))"
  by code_simp

lemma reset_corner: "reset_game (new_game 10) corner_src 0 = Some (Inr (corner_game, 124))"
  by code_simp

lemma corner_closed:
  "cell (maze corner_game) (snd (player2_pos corner_game)) (fst (player2_pos corner_game)) = Inr False"
  by code_simp


lemma maze_size_pos:
  assumes "quantum_maze_visibility N (sx, sy) goal_arg src cur = Inr (grid, cur')"
  shows "0 < N"
proof -
  obtain g0 c0 where f: "fill_rows src (nat N) (nat N) cur [] = (g0, c0)" by force
  from fill_rows_shape [OF f] have len: "length g0 = nat N" by simp
  from assms f obtain g1 where "set_cell g0 sy sx True = Inr g1"
    by (auto simp: quantum_maze_visibility_def Let_def split: sum.splits prod.splits option.splits)
  then obtain j where "py_slot (length g0) sy = Some j"
    by (auto simp: set_cell_def split: option.splits)
  from py_slot_less [OF this] len show ?thesis by simp
qed

lemma reset_game_sound:
  assumes "reset_game self src cur = Some (Inr (self', cur'))"
  shows "0 < grid_size self \<and> grid_size self' = grid_size self \<and>
         goal self' = (grid_size self div 2, grid_size self div 2) \<and>
         square_grid (grid_size self) (maze self') \<and>
         cell (maze self') 0 0 = Inr True \<and>
         cell (maze self') (grid_size self div 2) (grid_size self div 2) = Inr True \<and>
         player1_pos self' = (0, 0) \<and>
         player2_pos self' = (grid_size self - 1, grid_size self - 1) \<and>
         length (enemies self') = 3 \<and> (\<forall>e \<in> set (enemies self'). spawn_ok self' e) \<and>
         running self'"
proof -
  define N where "N = grid_size self"
  define s4 where "s4 = self\<lparr>goal := (N div 2, N div 2)\<rparr>"
  from assms obtain grid cur0 where
    m: "quantum_maze_visibility N (0, 0) (Some (N div 2, N div 2)) src cur = Inr (grid, cur0)"
    by (auto simp: reset_game_def Let_def N_def split: sum.splits)
  define s5 where "s5 = self\<lparr>goal := (N div 2, N div 2), maze := grid, player1_pos := (0, 0),
    player2_pos := (N - 1, N - 1)\<rparr>"
  from assms m obtain ps where sp: "spawn_enemies 3 s5 src cur0 = Some (Inr (ps, cur'))"
    and s': "self' = s5\<lparr>enemies := ps, running := True\<rparr>"
    by (auto simp: reset_game_def Let_def N_def s5_def split: sum.splits option.splits)
  have N: "0 < N" using m by (rule maze_size_pos)
  have g5: "grid_size s5 = N" by (simp add: s5_def N_def)
  from spawn_enemies_sound [OF sp] N g5
  have ps: "length ps = 3" "\<forall>p \<in> set ps. spawn_ok s5 p" by simp_all
  have ok: "spawn_ok self' p = spawn_ok s5 p" for p
    by (simp add: s' spawn_ok_def open_at_def)
  from maze_square_grid [OF m] have sq: "square_grid N grid" by simp
  from maze_forced_open [OF m, of "N div 2" "N div 2"]
  have op: "cell grid 0 0 = Inr True" "cell grid (N div 2) (N div 2) = Inr True" by simp_all
  show ?thesis
    unfolding N_def [symmetric] using N sq op ps ok
    by (simp add: s' s5_def N_def [symmetric])
qed

lemma raw_draw_shift_many: "raw_draw src n (c + m * n) j = raw_draw src n c (m + j)"
proof -
  have e: "c + m * n + j * n = c + (m + j) * n" by (simp add: algebra_simps)
  show ?thesis unfolding raw_draw_def e by (rule refl)
qed

lemma raw_draws_split:
  "map (raw_draw src n c) [0 ..< m + K] =
     map (raw_draw src n c) [0 ..< m] @ map (raw_draw src n (c + m * n)) [0 ..< K]"
  by (induction K) (simp_all add: raw_draw_shift_many)

lemma in_range_draws_split:
  "in_range_draws N src c (m + K) =
     in_range_draws N src c m @ in_range_draws N src (c + m * bit_length N) K"
  by (simp add: in_range_draws_def raw_draws_split)

lemma first_in_range:
  assumes "in_range_draws N src c K \<noteq> []"
  obtains k where "k < K" "raw_draw src (bit_length N) c k < N"
    "\<forall>j<k. \<not> raw_draw src (bit_length N) c j < N"
proof -
  from assms have "\<exists>k. k < K \<and> raw_draw src (bit_length N) c k < N"
    by (auto simp: in_range_draws_def filter_empty_conv)
  then obtain k where k: "k < K \<and> raw_draw src (bit_length N) c k < N"
    and least: "\<forall>j<k. \<not> (j < K \<and> raw_draw src (bit_length N) c j < N)"
    using exists_least_iff [of "\<lambda>k. k < K \<and> raw_draw src (bit_length N) c k < N"] by blast
  from k least have "\<forall>j<k. \<not> raw_draw src (bit_length N) c j < N" by auto
  with k that show ?thesis by blast
qed

lemma in_range_draws_first:
  assumes "raw_draw src (bit_length N) c k < N"
      and "\<forall>j<k. \<not> raw_draw src (bit_length N) c j < N"
  shows "in_range_draws N src c (Suc k) = [raw_draw src (bit_length N) c k]"
  using assms by (simp add: in_range_draws_def filter_empty_conv)

lemma in_range_draws_first_split:
  assumes "raw_draw src (bit_length N) c k < N"
      and "\<forall>j<k. \<not> raw_draw src (bit_length N) c j < N"
  shows "in_range_draws N src c (Suc k + K) =
           raw_draw src (bit_length N) c k # in_range_draws N src (c + Suc k * bit_length N) K"
  using in_range_draws_split [of N src c "Suc k" K] in_range_draws_first [OF assms] by simp


lemma quantum_random_int_first:
  assumes "0 < N" and "raw_draw src (bit_length N) c k < N"
      and "\<forall>j<k. \<not> raw_draw src (bit_length N) c j < N"
  shows "quantum_random_int N src c =
           Some (Inr (raw_draw src (bit_length N) c k, c + Suc k * bit_length N))"
  unfolding quantum_random_int_def
  using bit_length_pos [of N] assms by (intro loop_first_in_range) simp_all

lemma raw_draw_nonneg: "0 \<le> raw_draw src n c k"
  by (simp add: raw_draw_def binary_value_nonneg)

lemma draws_pair:
  fixes N :: int and src :: backend and c k1 k2 :: nat
  defines "n \<equiv> bit_length N"
  defines "c1 \<equiv> c + Suc k1 * n"
  defines "c2 \<equiv> c + (Suc k1 + Suc k2) * n"
  assumes N: "0 < N"
      and x: "raw_draw src n c k1 < N" "\<forall>j<k1. \<not> raw_draw src n c j < N"
      and y: "raw_draw src n c1 k2 < N" "\<forall>j<k2. \<not> raw_draw src n c1 j < N"
  shows "quantum_random_int N src c = Some (Inr (raw_draw src n c k1, c1))"
    and "quantum_random_int N src c1 = Some (Inr (raw_draw src n c1 k2, c2))"
    and "in_range_draws N src c (Suc k1 + Suc k2 + K2) =
           raw_draw src n c k1 # raw_draw src n c1 k2 # in_range_draws N src c2 K2"
proof -
  have c2: "c2 = c1 + Suc k2 * n" by (simp add: c1_def c2_def algebra_simps)
  show "quantum_random_int N src c = Some (Inr (raw_draw src n c k1, c1))"
    using quantum_random_int_first [OF N x [unfolded n_def]] by (simp add: n_def c1_def)
  show "quantum_random_int N src c1 = Some (Inr (raw_draw src n c1 k2, c2))"
    using quantum_random_int_first [OF N y [unfolded n_def]] by (simp add: n_def c2)
  have "in_range_draws N src c (Suc k1 + (Suc k2 + K2)) =
          raw_draw src n c k1 # in_range_draws N src c1 (Suc k2 + K2)"
    using in_range_draws_first_split [OF x [unfolded n_def], of "Suc k2 + K2"]
    by (simp add: n_def c1_def)
  also have "in_range_draws N src c1 (Suc k2 + K2) =
          raw_draw src n c1 k2 # in_range_draws N src c2 K2"
    using in_range_draws_first_split [OF y [unfolded n_def], of K2] by (simp add: n_def c2)
  finally show "in_range_draws N src c (Suc k1 + Suc k2 + K2) =
           raw_draw src n c k1 # raw_draw src n c1 k2 # in_range_draws N src c2 K2"
    by (simp add: add.assoc)
qed

lemma two_draws:
  assumes N: "0 < N" and len: "2 \<le> length (in_range_draws N src c K)"
  obtains m x y c1 where "0 < m" "m \<le> K" "0 \<le> x" "x < N" "0 \<le> y" "y < N"
    "quantum_random_int N src c = Some (Inr (x, c1))"
    "quantum_random_int N src c1 = Some (Inr (y, c + m * bit_length N))"
    "\<forall>K2. in_range_draws N src c (m + K2) =
            x # y # in_range_draws N src (c + m * bit_length N) K2"
proof -
  define n where "n = bit_length N"
  from len have "in_range_draws N src c K \<noteq> []" by auto
  then obtain k1 where k1: "k1 < K" "raw_draw src n c k1 < N"
    "\<forall>j<k1. \<not> raw_draw src n c j < N"
    unfolding n_def by (rule first_in_range)
  define c1 where "c1 = c + Suc k1 * n"
  from k1(1) have K: "K = Suc k1 + (K - Suc k1)" by simp
  have "in_range_draws N src c K =
          raw_draw src n c k1 # in_range_draws N src c1 (K - Suc k1)"
    using in_range_draws_first_split [OF k1(2,3) [unfolded n_def], of "K - Suc k1"] K
    by (simp add: n_def c1_def)
  with len have "in_range_draws N src c1 (K - Suc k1) \<noteq> []" by auto
  then obtain k2 where k2: "k2 < K - Suc k1" "raw_draw src n c1 k2 < N"
    "\<forall>j<k2. \<not> raw_draw src n c1 j < N"
    unfolding n_def by (rule first_in_range)
  note p = draws_pair [OF N k1(2,3) [unfolded n_def] k2(2,3) [unfolded n_def c1_def]]
  show ?thesis
  proof (rule that [of "Suc k1 + Suc k2" "raw_draw src n c k1" "raw_draw src n c1 k2" c1])
    show "0 < Suc k1 + Suc k2" by simp
    show "Suc k1 + Suc k2 \<le> K" using k2(1) by simp
    show "0 \<le> raw_draw src n c k1" "0 \<le> raw_draw src n c1 k2" by (rule raw_draw_nonneg)+
    show "raw_draw src n c k1 < N" "raw_draw src n c1 k2 < N" by (rule k1(2) k2(2))+
    show "quantum_random_int N src c = Some (Inr (raw_draw src n c k1, c1))"
      using p(1) by (simp add: n_def c1_def)
    show "quantum_random_int N src c1 =
            Some (Inr (raw_draw src n c1 k2, c + (Suc k1 + Suc k2) * bit_length N))"
      using p(2) by (simp add: n_def c1_def)
    show "\<forall>K2. in_range_draws N src c (Suc k1 + Suc k2 + K2) =
            raw_draw src n c k1 # raw_draw src n c1 k2 #
            in_range_draws N src (c + (Suc k1 + Suc k2) * bit_length N) K2"
      using p(3) by (simp add: n_def c1_def)
  qed
qed

lemma two_by_two_nonempty: "two_by_two xs \<noteq> [] \<Longrightarrow> 2 \<le> length xs"
  by (cases xs rule: two_by_two.cases) auto

lemma spawn_cells_pair:
  assumes "in_range_draws (grid_size self) src c (m + K2) =
             x # y # in_range_draws (grid_size self) src c2 K2"
  shows "spawn_cells self src c (m + K2) =
           (if spawn_ok self (x, y) then [(x, y)] else []) @ spawn_cells self src c2 K2"
  using assms by (simp add: spawn_cells_def)

lemma random_empty_cell_step:
  assumes sq: "square_grid (grid_size self) (maze self)"
      and qx: "quantum_random_int (grid_size self) src c = Some (Inr (x, c1))"
      and qy: "quantum_random_int (grid_size self) src c1 = Some (Inr (y, c2))"
      and x: "0 \<le> x" "x < grid_size self" and y: "0 \<le> y" "y < grid_size self"
  shows "random_empty_cell self src c =
           (if spawn_ok self (x, y) then Some (Inr ((x, y), c2))
            else random_empty_cell self src c2)"
proof -
  have c: "cell (maze self) y x = Inr (maze self ! nat y ! nat x)"
    using sq y x by (rule cell_square_grid)
  have ok: "spawn_ok self (x, y) \<longleftrightarrow>
              maze self ! nat y ! nat x \<and>
              (x, y) \<notin> set [player1_pos self, player2_pos self, goal self]"
    using c x y by (auto simp: spawn_ok_def open_at_def)
  show ?thesis
    by (subst random_empty_cell.simps) (simp add: qx qy c ok)
qed

lemma random_empty_cell_finds:
  assumes N: "0 < grid_size self" and sq: "square_grid (grid_size self) (maze self)"
  shows "spawn_cells self src c K \<noteq> [] \<Longrightarrow> \<forall>K'<K. spawn_cells self src c K' = [] \<Longrightarrow>
     \<exists>p. random_empty_cell self src c = Some (Inr (p, c + K * bit_length (grid_size self))) \<and>
         (\<forall>K2. spawn_cells self src c (K + K2) =
                 p # spawn_cells self src (c + K * bit_length (grid_size self)) K2)"
proof (induction K arbitrary: c rule: less_induct)
  case (less K)
  define n where "n = bit_length (grid_size self)"
  from less.prems(1) have "two_by_two (in_range_draws (grid_size self) src c K) \<noteq> []"
    by (auto simp: spawn_cells_def)
  then have "2 \<le> length (in_range_draws (grid_size self) src c K)"
    by (rule two_by_two_nonempty)
  with N obtain m x y c1 where m: "0 < m" "m \<le> K"
    and x: "0 \<le> x" "x < grid_size self" and y: "0 \<le> y" "y < grid_size self"
    and qx: "quantum_random_int (grid_size self) src c = Some (Inr (x, c1))"
    and qy: "quantum_random_int (grid_size self) src c1 = Some (Inr (y, c + m * n))"
    and dr: "\<forall>K2. in_range_draws (grid_size self) src c (m + K2) =
            x # y # in_range_draws (grid_size self) src (c + m * n) K2"
    unfolding n_def by (rule two_draws)
  have sp: "spawn_cells self src c (m + K2) =
           (if spawn_ok self (x, y) then [(x, y)] else []) @ spawn_cells self src (c + m * n) K2"
    for K2 using dr by (intro spawn_cells_pair) simp
  note step = random_empty_cell_step [OF sq qx qy x y]
  show ?case
  proof (cases "spawn_ok self (x, y)")
    case True
    from sp [of 0] True have "spawn_cells self src c m \<noteq> []" by simp
    with less.prems(2) have "\<not> m < K" by blast
    with m have mK: "m = K" by simp
    have "spawn_cells self src (c + m * n) 0 = []"
      by (simp add: spawn_cells_def in_range_draws_def)
    with step True sp mK show ?thesis
      by (intro exI [of _ "(x, y)"]) (simp add: n_def)
  next
    case False
    define K' where "K' = K - m"
    from m have K: "K = m + K'" and lt: "K' < K" by (simp_all add: K'_def)
    from sp False have eq: "spawn_cells self src c (m + K2) = spawn_cells self src (c + m * n) K2"
      for K2 by simp
    from less.prems(1) K eq have ne: "spawn_cells self src (c + m * n) K' \<noteq> []" by simp
    have least: "\<forall>j<K'. spawn_cells self src (c + m * n) j = []"
    proof (intro allI impI)
      fix j assume "j < K'"
      then have "m + j < K" using K by simp
      with less.prems(2) have "spawn_cells self src c (m + j) = []" by blast
      with eq show "spawn_cells self src (c + m * n) j = []" by simp
    qed
    from less.IH [OF lt ne least] obtain p where
      r: "random_empty_cell self src (c + m * n) = Some (Inr (p, c + m * n + K' * n))" and
      s: "\<forall>K2. spawn_cells self src (c + m * n) (K' + K2) =
                 p # spawn_cells self src (c + m * n + K' * n) K2"
      by (auto simp: n_def)
    have cur: "c + m * n + K' * n = c + K * n" by (simp add: K algebra_simps)
    have "spawn_cells self src c (K + K2) = p # spawn_cells self src (c + K * n) K2" for K2
    proof -
      have "spawn_cells self src c (K + K2) = spawn_cells self src c (m + (K' + K2))"
        by (simp add: K add.assoc)
      also have "\<dots> = spawn_cells self src (c + m * n) (K' + K2)" by (rule eq)
      also have "\<dots> = p # spawn_cells self src (c + K * n) K2" using s cur by simp
      finally show ?thesis .
    qed
    with step False r cur show ?thesis
      by (intro exI [of _ p]) (simp add: n_def)
  qed
qed

lemma quantum_random_int_index:
  assumes "0 < N" and "quantum_random_int N src c = Some r"
  shows "\<exists>k. raw_draw src (bit_length N) c k < N \<and>
             (\<forall>j<k. \<not> raw_draw src (bit_length N) c j < N) \<and>
             r = Inr (raw_draw src (bit_length N) c k, c + Suc k * bit_length N)"
  using loop_sound [OF assms(2) [unfolded quantum_random_int_def]] bit_length_pos [of N] assms(1)
  by simp

lemma random_empty_cell_returns_aux:
  "random_empty_cell self src c = Some r \<Longrightarrow>
   0 < grid_size self \<and> square_grid (grid_size self) (maze self) \<longrightarrow>
   (\<exists>K. spawn_cells self src c K \<noteq> [])"
proof (induction self src c r rule: random_empty_cell.raw_induct[rotated 1, consumes 1])
  case (1 rec self src c r)
  show ?case
  proof
    assume a: "0 < grid_size self \<and> square_grid (grid_size self) (maze self)"
    then have N: "0 < grid_size self" and sq: "square_grid (grid_size self) (maze self)"
      by simp_all
    define n where "n = bit_length (grid_size self)"
    from 1(2) obtain rx where qx: "quantum_random_int (grid_size self) src c = Some rx"
      by (cases "quantum_random_int (grid_size self) src c") auto
    from quantum_random_int_index [OF N qx] obtain k1 where
      k1: "raw_draw src n c k1 < grid_size self" "\<forall>j<k1. \<not> raw_draw src n c j < grid_size self"
      and rx: "rx = Inr (raw_draw src n c k1, c + Suc k1 * n)"
      unfolding n_def by blast
    define c1 where "c1 = c + Suc k1 * n"
    from 1(2) qx rx obtain ry where qy: "quantum_random_int (grid_size self) src c1 = Some ry"
      by (cases "quantum_random_int (grid_size self) src c1") (auto simp: c1_def)
    from quantum_random_int_index [OF N qy] obtain k2 where
      k2: "raw_draw src n c1 k2 < grid_size self"
          "\<forall>j<k2. \<not> raw_draw src n c1 j < grid_size self"
      and ry: "ry = Inr (raw_draw src n c1 k2, c1 + Suc k2 * n)"
      unfolding n_def by blast
    define x where "x = raw_draw src n c k1"
    define y where "y = raw_draw src n c1 k2"
    define m where "m = Suc k1 + Suc k2"
    have c2: "c1 + Suc k2 * n = c + m * n" by (simp add: c1_def m_def algebra_simps)
    note p = draws_pair [OF N k1 [unfolded n_def] k2 [unfolded n_def c1_def]]
    have dr: "in_range_draws (grid_size self) src c (m + K2) =
            x # y # in_range_draws (grid_size self) src (c + m * n) K2" for K2
      using p(3) [of K2] by (simp add: x_def y_def m_def n_def c1_def)
    have sp: "spawn_cells self src c (m + K2) =
           (if spawn_ok self (x, y) then [(x, y)] else []) @ spawn_cells self src (c + m * n) K2"
      for K2 using dr by (intro spawn_cells_pair)
    have xr: "0 \<le> x" "x < grid_size self" and yr: "0 \<le> y" "y < grid_size self"
      using k1(1) k2(1) by (simp_all add: x_def y_def raw_draw_nonneg)
    have qx': "quantum_random_int (grid_size self) src c = Some (Inr (x, c1))"
      using qx rx by (simp add: x_def c1_def)
    have qy': "quantum_random_int (grid_size self) src c1 = Some (Inr (y, c + m * n))"
      using qy ry c2 by (simp add: y_def)
    show "\<exists>K. spawn_cells self src c K \<noteq> []"
    proof (cases "spawn_ok self (x, y)")
      case True
      with sp [of 0] show ?thesis by (intro exI [of _ "m + 0"]) simp
    next
      case False
      have c: "cell (maze self) y x = Inr (maze self ! nat y ! nat x)"
        using sq yr xr by (rule cell_square_grid)
      from False c xr yr have
        "\<not> (maze self ! nat y ! nat x \<and>
            (x, y) \<notin> set [player1_pos self, player2_pos self, goal self])"
        by (auto simp: spawn_ok_def open_at_def)
      with 1(2) qx' qy' c have "rec self src (c + m * n) = Some r" by (simp del: set_simps)
      from 1(1) [OF this] a obtain K where "spawn_cells self src (c + m * n) K \<noteq> []" by blast
      with sp [of K] show ?thesis by (intro exI [of _ "m + K"]) simp
    qed
  qed
qed

lemma random_empty_cell_returns:
  assumes N: "0 < grid_size self" and sq: "square_grid (grid_size self) (maze self)"
      and r: "random_empty_cell self src c = Some r"
  shows "\<exists>K p. r = Inr (p, c + K * bit_length (grid_size self)) \<and>
               (\<forall>K2. spawn_cells self src c (K + K2) =
                  p # spawn_cells self src (c + K * bit_length (grid_size self)) K2)"
proof -
  from random_empty_cell_returns_aux [OF r] N sq
  have "\<exists>K. spawn_cells self src c K \<noteq> []" by blast
  then obtain K where K: "spawn_cells self src c K \<noteq> []"
    and least: "\<forall>j<K. \<not> spawn_cells self src c j \<noteq> []"
    using exists_least_iff [of "\<lambda>K. spawn_cells self src c K \<noteq> []"] by blast
  from least have "\<forall>j<K. spawn_cells self src c j = []" by simp
  from random_empty_cell_finds [OF N sq K this] r show ?thesis by auto
qed

lemma spawn_enemies_finds:
  assumes N: "0 < grid_size self" and sq: "square_grid (grid_size self) (maze self)"
  shows "t \<le> length (spawn_cells self src c K) \<Longrightarrow>
         \<forall>K'<K. length (spawn_cells self src c K') < t \<Longrightarrow>
         spawn_enemies t self src c =
           Some (Inr (take t (spawn_cells self src c K), c + K * bit_length (grid_size self)))"
proof (induction t arbitrary: c K)
  case 0
  then have "K = 0" by (cases K) auto
  then show ?case by simp
next
  case (Suc t)
  define n where "n = bit_length (grid_size self)"
  from Suc.prems(1) have "spawn_cells self src c K \<noteq> []" by auto
  then have "\<exists>K1. spawn_cells self src c K1 \<noteq> []" by blast
  then obtain K1 where K1: "spawn_cells self src c K1 \<noteq> []"
    and least: "\<forall>j<K1. \<not> spawn_cells self src c j \<noteq> []"
    using exists_least_iff [of "\<lambda>K. spawn_cells self src c K \<noteq> []"] by blast
  from least have least': "\<forall>j<K1. spawn_cells self src c j = []" by simp
  have le: "K1 \<le> K"
  proof (rule ccontr)
    assume "\<not> K1 \<le> K"
    then have "K < K1" by simp
    with least' have "spawn_cells self src c K = []" by blast
    with Suc.prems(1) show False by simp
  qed
  from random_empty_cell_finds [OF N sq K1 least'] obtain p where
    r: "random_empty_cell self src c = Some (Inr (p, c + K1 * n))" and
    s: "\<forall>K2. spawn_cells self src c (K1 + K2) = p # spawn_cells self src (c + K1 * n) K2"
    by (auto simp: n_def)
  define K2 where "K2 = K - K1"
  from le have K: "K = K1 + K2" by (simp add: K2_def)
  from s K have all: "spawn_cells self src c K = p # spawn_cells self src (c + K1 * n) K2"
    by simp
  with Suc.prems(1) have len: "t \<le> length (spawn_cells self src (c + K1 * n) K2)" by simp
  have small: "\<forall>j<K2. length (spawn_cells self src (c + K1 * n) j) < t"
  proof (intro allI impI)
    fix j assume "j < K2"
    then have "K1 + j < K" using K by simp
    with Suc.prems(2) have "length (spawn_cells self src c (K1 + j)) < Suc t" by blast
    with s show "length (spawn_cells self src (c + K1 * n) j) < t" by simp
  qed
  have cur: "c + K1 * n + K2 * n = c + K * n" by (simp add: K algebra_simps)
  from Suc.IH [OF len small] r all cur show ?case by (simp add: n_def)
qed

lemma spawn_enemies_returns:
  assumes N: "0 < grid_size self" and sq: "square_grid (grid_size self) (maze self)"
  shows "spawn_enemies t self src c = Some r \<Longrightarrow> \<exists>K. t \<le> length (spawn_cells self src c K)"
proof (induction t arbitrary: c r)
  case 0
  then show ?case by simp
next
  case (Suc t)
  from Suc.prems obtain r1 where r1: "random_empty_cell self src c = Some r1"
    by (cases "random_empty_cell self src c") auto
  from random_empty_cell_returns [OF N sq r1] obtain K1 p where
    p: "r1 = Inr (p, c + K1 * bit_length (grid_size self))" and
    s: "\<forall>K2. spawn_cells self src c (K1 + K2) =
              p # spawn_cells self src (c + K1 * bit_length (grid_size self)) K2"
    by blast
  from Suc.prems r1 p obtain r2 where
    "spawn_enemies t self src (c + K1 * bit_length (grid_size self)) = Some r2"
    by (cases "spawn_enemies t self src (c + K1 * bit_length (grid_size self))") auto
  from Suc.IH [OF this] obtain K2 where
    "t \<le> length (spawn_cells self src (c + K1 * bit_length (grid_size self)) K2)" by blast
  with s show ?case by (intro exI [of _ "K1 + K2"]) simp
qed

lemma spawn_enemies_diverges:
  assumes N: "0 < grid_size self" and sq: "square_grid (grid_size self) (maze self)"
      and "\<forall>K. length (spawn_cells self src c K) < t"
  shows "spawn_enemies t self src c = None"
proof (cases "spawn_enemies t self src c")
  case None
  then show ?thesis .
next
  case (Some r)
  from spawn_enemies_returns [OF N sq Some] assms(3) show ?thesis
    by (auto simp: not_le [symmetric])
qed

lemma reset_game_unfold:
  assumes "quantum_maze_visibility (grid_size self) (0, 0)
             (Some (grid_size self div 2, grid_size self div 2)) src cur = Inr (grid, c0)"
  shows "reset_game self src cur =
           (case spawn_enemies 3 (before_spawn self grid) src c0 of
              None \<Rightarrow> None
            | Some r \<Rightarrow>
                (case r of
                   Inl e \<Rightarrow> Some (Inl e)
                 | Inr (ps, c') \<Rightarrow>
                     Some (Inr ((before_spawn self grid)\<lparr>enemies := ps, running := True\<rparr>, c'))))"
  using assms
  by (auto simp: reset_game_def Let_def before_spawn_def split: option.splits sum.splits)

lemma reset_game_raises:
  assumes "grid_size self \<le> 0"
  shows "reset_game self src cur = Some (Inl IndexError)"
proof -
  from assms have "nat (grid_size self) = 0" by simp
  then show ?thesis
    by (simp add: reset_game_def Let_def quantum_maze_visibility_def set_cell_def py_slot_def)
qed

lemma reset_maze_returns:
  assumes "0 < N"
  shows "\<exists>grid. quantum_maze_visibility N (0, 0) (Some (N div 2, N div 2)) src cur =
                  Inr (grid, cur + nat N * nat N)"
proof -
  from assms have "0 \<le> N div 2" "N div 2 < N" by simp_all
  with assms show ?thesis
    by (intro maze_returns [of 0 N 0 "N div 2" "N div 2"]) simp_all
qed

lemma before_spawn_square:
  assumes "quantum_maze_visibility (grid_size self) (0, 0)
             (Some (grid_size self div 2, grid_size self div 2)) src cur = Inr (grid, c0)"
  shows "square_grid (grid_size (before_spawn self grid)) (maze (before_spawn self grid))"
  using maze_square_grid [OF assms] by (simp add: before_spawn_def)

lemma reset_game_returns:
  assumes N: "0 < grid_size self"
      and m: "quantum_maze_visibility (grid_size self) (0, 0)
             (Some (grid_size self div 2, grid_size self div 2)) src cur = Inr (grid, c0)"
      and "3 \<le> length (spawn_cells (before_spawn self grid) src c0 K)"
      and "\<forall>K'<K. length (spawn_cells (before_spawn self grid) src c0 K') < 3"
  shows "reset_game self src cur =
           Some (Inr ((before_spawn self grid)
                        \<lparr>enemies := take 3 (spawn_cells (before_spawn self grid) src c0 K),
                         running := True\<rparr>,
                      c0 + K * bit_length (grid_size self)))"
proof -
  have g: "grid_size (before_spawn self grid) = grid_size self" by (simp add: before_spawn_def)
  from N g have N': "0 < grid_size (before_spawn self grid)" by simp
  from spawn_enemies_finds [OF N' before_spawn_square [OF m] assms(3,4)] g
  show ?thesis by (simp add: reset_game_unfold [OF m])
qed

lemma reset_game_diverges:
  assumes N: "0 < grid_size self"
      and m: "quantum_maze_visibility (grid_size self) (0, 0)
             (Some (grid_size self div 2, grid_size self div 2)) src cur = Inr (grid, c0)"
      and "\<forall>K. length (spawn_cells (before_spawn self grid) src c0 K) < 3"
  shows "reset_game self src cur = None"
proof -
  have g: "grid_size (before_spawn self grid) = grid_size self" by (simp add: before_spawn_def)
  from N g have N': "0 < grid_size (before_spawn self grid)" by simp
  from spawn_enemies_diverges [OF N' before_spawn_square [OF m] assms(3)]
  show ?thesis by (simp add: reset_game_unfold [OF m])
qed

lemma foldl_zero_bits:
  "\<forall>b \<in> set bits. \<not> b \<Longrightarrow> foldl (\<lambda>a b. 2 * a + (if b then 1 else 0)) (0::int) bits = 0"
  by (induction bits) auto

lemma zero_src_draw: "raw_draw zero_src n c j = 0"
  by (simp add: raw_draw_def binary_value_def zero_src_def bits_backend_def foldl_zero_bits)

lemma two_by_two_set:
  "p \<in> set (two_by_two xs) \<Longrightarrow> fst p \<in> set xs \<and> snd p \<in> set xs"
  by (induction xs rule: two_by_two.induct) auto

lemma zero_src_no_spawn:
  assumes "player1_pos self = (0, 0)"
  shows "spawn_cells self zero_src c K = []"
proof -
  have "p = (0, 0)" if "p \<in> set (two_by_two (in_range_draws (grid_size self) zero_src c K))" for p
  proof -
    from two_by_two_set [OF that] have "fst p = 0" "snd p = 0"
      by (auto simp: in_range_draws_def zero_src_draw)
    then show ?thesis by (cases p) simp
  qed
  with assms show ?thesis
    by (auto simp: spawn_cells_def filter_empty_conv spawn_ok_def)
qed

lemma reset_zero_src: "reset_game (new_game 10) zero_src 0 = None"
proof -
  have N: "0 < grid_size (new_game 10)" by (simp add: new_game_def)
  from reset_maze_returns [OF N] obtain grid where
    m: "quantum_maze_visibility (grid_size (new_game 10)) (0, 0)
          (Some (grid_size (new_game 10) div 2, grid_size (new_game 10) div 2)) zero_src 0 =
        Inr (grid, 0 + nat (grid_size (new_game 10)) * nat (grid_size (new_game 10)))"
    by blast
  have "player1_pos (before_spawn (new_game 10) grid) = (0, 0)" by (simp add: before_spawn_def)
  from zero_src_no_spawn [OF this] show ?thesis
    by (intro reset_game_diverges [OF N m]) simp
qed

lemma dup_spawn_cells:
  "spawn_cells (before_spawn (new_game 3) (maze dup_game)) dup_src 9 6 = [(1, 0), (1, 0), (1, 0)]"
  by code_simp

lemma dup_spawn_cells_5:
  "spawn_cells (before_spawn (new_game 3) (maze dup_game)) dup_src 9 5 = [(1, 0), (1, 0)]"
  by code_simp

text \<open>
  Claim C2, as amended. For every game object, cursor and backend:
  \<^item> whenever \<open>reset_game\<close> returns a state, that state has the start cell and the goal cell
    open, player 1 at \<open>(0, 0)\<close>, player 2 at \<open>(N - 1, N - 1)\<close>, and exactly three adversaries,
    each on a cell inside the grid that is open and is neither a player's cell nor the
    goal; nothing makes the three cells differ from one another;
  \<^item> with a grid size \<open>N \<le> 0\<close> it raises \<open>IndexError\<close>;
  \<^item> with \<open>N \<ge> 1\<close> the maze is drawn, and the reset returns exactly when the in-range
    draws that follow, read two by two as \<open>(x, y)\<close>, come to hold three acceptable cells:
    it returns after the raw draw \<open>K\<close> that completes the third, the adversaries being
    these three cells in the order drawn, and it never returns when no number of draws
    holds three.
\<close>

theorem reset_game_establishes:
  "(\<forall>self' cur'. reset_game self src cur = Some (Inr (self', cur')) \<longrightarrow>
      cell (maze self') 0 0 = Inr True \<and>
      cell (maze self') (snd (goal self')) (fst (goal self')) = Inr True \<and>
      player1_pos self' = (0, 0) \<and>
      player2_pos self' = (grid_size self' - 1, grid_size self' - 1) \<and>
      length (enemies self') = 3 \<and>
      (\<forall>e \<in> set (enemies self').
         open_at self' e \<and> e \<noteq> player1_pos self' \<and> e \<noteq> player2_pos self' \<and>
         e \<noteq> goal self')) \<and>
   (grid_size self \<le> 0 \<longrightarrow> reset_game self src cur = Some (Inl IndexError)) \<and>
   (0 < grid_size self \<longrightarrow>
      (\<exists>grid.
         quantum_maze_visibility (grid_size self) (0, 0)
           (Some (grid_size self div 2, grid_size self div 2)) src cur =
           Inr (grid, cur + nat (grid_size self) * nat (grid_size self)) \<and>
         (\<forall>K. 3 \<le> length (spawn_cells (before_spawn self grid) src
                            (cur + nat (grid_size self) * nat (grid_size self)) K) \<and>
              (\<forall>K'<K. length (spawn_cells (before_spawn self grid) src
                            (cur + nat (grid_size self) * nat (grid_size self)) K') < 3) \<longrightarrow>
              reset_game self src cur =
                Some (Inr ((before_spawn self grid)
                             \<lparr>enemies := take 3 (spawn_cells (before_spawn self grid) src
                                (cur + nat (grid_size self) * nat (grid_size self)) K),
                              running := True\<rparr>,
                           cur + nat (grid_size self) * nat (grid_size self) +
                           K * bit_length (grid_size self)))) \<and>
         ((\<forall>K. length (spawn_cells (before_spawn self grid) src
                            (cur + nat (grid_size self) * nat (grid_size self)) K) < 3) \<longrightarrow>
            reset_game self src cur = None)))"
proof (intro conjI allI impI)
  fix self' cur'
  assume a: "reset_game self src cur = Some (Inr (self', cur'))"
  note r = reset_game_sound [OF a]
  from r have g: "goal self' = (grid_size self div 2, grid_size self div 2)"
    and n: "grid_size self' = grid_size self" by blast+
  from r show "cell (maze self') 0 0 = Inr True" by blast
  from r g show "cell (maze self') (snd (goal self')) (fst (goal self')) = Inr True" by simp
  from r show "player1_pos self' = (0, 0)" by blast
  from r n show "player2_pos self' = (grid_size self' - 1, grid_size self' - 1)" by simp
  from r show "length (enemies self') = 3" by blast
  from r have "\<forall>e \<in> set (enemies self'). spawn_ok self' e" by blast
  then show "\<forall>e \<in> set (enemies self').
         open_at self' e \<and> e \<noteq> player1_pos self' \<and> e \<noteq> player2_pos self' \<and>
         e \<noteq> goal self'"
    by (simp add: spawn_ok_def)
next
  assume "grid_size self \<le> 0"
  then show "reset_game self src cur = Some (Inl IndexError)" by (rule reset_game_raises)
next
  assume N: "0 < grid_size self"
  define c0 where "c0 = cur + nat (grid_size self) * nat (grid_size self)"
  from reset_maze_returns [OF N] obtain grid where
    m: "quantum_maze_visibility (grid_size self) (0, 0)
           (Some (grid_size self div 2, grid_size self div 2)) src cur = Inr (grid, c0)"
    unfolding c0_def by blast
  have "\<forall>K. 3 \<le> length (spawn_cells (before_spawn self grid) src c0 K) \<and>
              (\<forall>K'<K. length (spawn_cells (before_spawn self grid) src c0 K') < 3) \<longrightarrow>
              reset_game self src cur =
                Some (Inr ((before_spawn self grid)
                             \<lparr>enemies := take 3 (spawn_cells (before_spawn self grid) src c0 K),
                              running := True\<rparr>,
                           c0 + K * bit_length (grid_size self)))"
    using reset_game_returns [OF N m] by blast
  moreover have "(\<forall>K. length (spawn_cells (before_spawn self grid) src c0 K) < 3) \<longrightarrow>
            reset_game self src cur = None"
    using reset_game_diverges [OF N m] by blast
  ultimately show "\<exists>grid.
         quantum_maze_visibility (grid_size self) (0, 0)
           (Some (grid_size self div 2, grid_size self div 2)) src cur =
           Inr (grid, cur + nat (grid_size self) * nat (grid_size self)) \<and>
         (\<forall>K. 3 \<le> length (spawn_cells (before_spawn self grid) src
                            (cur + nat (grid_size self) * nat (grid_size self)) K) \<and>
              (\<forall>K'<K. length (spawn_cells (before_spawn self grid) src
                            (cur + nat (grid_size self) * nat (grid_size self)) K') < 3) \<longrightarrow>
              reset_game self src cur =
                Some (Inr ((before_spawn self grid)
                             \<lparr>enemies := take 3 (spawn_cells (before_spawn self grid) src
                                (cur + nat (grid_size self) * nat (grid_size self)) K),
                              running := True\<rparr>,
                           cur + nat (grid_size self) * nat (grid_size self) +
                           K * bit_length (grid_size self)))) \<and>
         ((\<forall>K. length (spawn_cells (before_spawn self grid) src
                            (cur + nat (grid_size self) * nat (grid_size self)) K) < 3) \<longrightarrow>
            reset_game self src cur = None)"
    using m unfolding c0_def by (intro exI [of _ grid]) blast
qed

theorem reset_game_establishes_witness:
  "reset_game (new_game 3) dup_src 0 = Some (Inr (dup_game, 21)) \<and>
   cell (maze dup_game) 0 0 = Inr True \<and>
   cell (maze dup_game) (snd (goal dup_game)) (fst (goal dup_game)) = Inr True \<and>
   player1_pos dup_game = (0, 0) \<and> player2_pos dup_game = (2, 2) \<and>
   enemies dup_game = [(1, 0), (1, 0), (1, 0)] \<and> open_at dup_game (1, 0) \<and>
   (1, 0) \<noteq> player1_pos dup_game \<and> (1, 0) \<noteq> player2_pos dup_game \<and>
   (1, 0) \<noteq> goal dup_game \<and>
   0 < grid_size (new_game 3) \<and>
   spawn_cells (before_spawn (new_game 3) (maze dup_game)) dup_src 9 6 =
     [(1, 0), (1, 0), (1, 0)] \<and>
   spawn_cells (before_spawn (new_game 3) (maze dup_game)) dup_src 9 5 = [(1, 0), (1, 0)]"
proof -
  note t = reset_game_establishes [of "new_game 3" dup_src 0]
  from t [THEN conjunct1, rule_format, OF reset_dup] reset_dup
  have "reset_game (new_game 3) dup_src 0 = Some (Inr (dup_game, 21)) \<and>
   cell (maze dup_game) 0 0 = Inr True \<and>
   cell (maze dup_game) (snd (goal dup_game)) (fst (goal dup_game)) = Inr True \<and>
   player1_pos dup_game = (0, 0) \<and> player2_pos dup_game = (2, 2) \<and>
   enemies dup_game = [(1, 0), (1, 0), (1, 0)] \<and> open_at dup_game (1, 0) \<and>
   (1, 0) \<noteq> player1_pos dup_game \<and> (1, 0) \<noteq> player2_pos dup_game \<and>
   (1, 0) \<noteq> goal dup_game"
    by (simp add: dup_game_def)
  moreover have "0 < grid_size (new_game 3)" by (simp add: new_game_def)
  ultimately show ?thesis using dup_spawn_cells dup_spawn_cells_5 by blast
qed

text \<open>
  The claim as stated asks for three distinct cells after every reset. On the backend
  \<open>dup_src\<close> the three spawn searches return the same cell; and on the backend that
  measures only zeros every search of the default 10 by 10 game draws \<open>(0, 0)\<close>, the cell
  of player 1, for ever, so that the reset never returns.
\<close>

theorem reset_game_coincide_or_never_return:
  "reset_game (new_game 3) dup_src 0 = Some (Inr (dup_game, 21)) \<and>
   enemies dup_game = [(1, 0), (1, 0), (1, 0)] \<and> \<not> distinct (enemies dup_game) \<and>
   reset_game (new_game 10) zero_src 0 = None"
  using reset_dup reset_zero_src by (simp add: dup_game_def)

text \<open>
  Claim C9. On the default 10 by 10 grid there is a backend for which \<open>reset_game\<close>
  returns a state whose player 2, at \<open>(9, 9)\<close>, stands on a closed cell: only the start
  and the goal are forced open.
\<close>

theorem player2_may_spawn_on_closed_cell:
  "\<exists>src self' cur'.
     reset_game (new_game 10) src 0 = Some (Inr (self', cur')) \<and>
     player2_pos self' = (9, 9) \<and>
     cell (maze self') (snd (player2_pos self')) (fst (player2_pos self')) = Inr False"
proof -
  have "player2_pos corner_game = (9, 9)" by (simp add: corner_game_def)
  with reset_corner corner_closed show ?thesis by blast
qed

subsection \<open>The adversaries\<close>

lemma enemy_move_cases:
  "enemy_moves ! (i mod length enemy_moves) \<in> {(0, 1), (0, - 1), (1, 0), (- 1, 0), (0, 0)}"
proof -
  have "enemy_moves ! (i mod length enemy_moves) \<in> set enemy_moves"
    by (intro nth_mem) (simp add: enemy_moves_def)
  then show ?thesis by (simp add: enemy_moves_def)
qed

lemma advance_enemies_steps:
  "advance_enemies self rnd k es acc = Inr (out, k') \<Longrightarrow>
   \<exists>new. out = acc @ new \<and> list_all2 (enemy_step self) es new \<and> k' = k + length es"
proof (induction es arbitrary: k acc)
  case Nil
  then show ?case by simp
next
  case (Cons e es)
  obtain ex ey where e: "e = (ex, ey)" by force
  define mv where "mv = enemy_moves ! (rnd k mod length enemy_moves)"
  define nx where "nx = ex + fst mv"
  define ny where "ny = ey + snd mv"
  have adj: "(nx, ny) = (ex, ey) \<or> adjacent (ex, ey) (nx, ny)"
    using enemy_move_cases [of "rnd k"] by (auto simp: nx_def ny_def mv_def adjacent_def)
  from Cons.prems obtain q where
    rec: "advance_enemies self rnd (Suc k) es (acc @ [q]) = Inr (out, k')" and
    q: "q = (ex, ey) \<or> (q = (nx, ny) \<and> open_at self (nx, ny))"
    by (auto simp: e Let_def open_at_def mv_def [symmetric] nx_def [symmetric] ny_def [symmetric]
             split: if_splits sum.splits)
  from Cons.IH [OF rec] obtain new where
    new: "out = (acc @ [q]) @ new" "list_all2 (enemy_step self) es new" "k' = Suc k + length es"
    by blast
  from q adj have "enemy_step self e q" by (auto simp: enemy_step_def e)
  with new show ?case by (intro exI [of _ "q # new"]) simp
qed

lemma advance_enemies_returns:
  assumes "square_grid (grid_size self) (maze self)"
  shows "\<exists>out k'. advance_enemies self rnd k es acc = Inr (out, k')"
proof (induction es arbitrary: k acc)
  case Nil
  then show ?case by simp
next
  case (Cons e es)
  obtain ex ey where e: "e = (ex, ey)" by force
  define mv where "mv = enemy_moves ! (rnd k mod length enemy_moves)"
  show ?case
  proof (cases "0 \<le> ex + fst mv \<and> ex + fst mv < grid_size self \<and>
                0 \<le> ey + snd mv \<and> ey + snd mv < grid_size self")
    case True
    then have "cell (maze self) (ey + snd mv) (ex + fst mv) =
                 Inr (maze self ! nat (ey + snd mv) ! nat (ex + fst mv))"
      by (intro cell_square_grid [OF assms]) simp_all
    with True Cons.IH show ?thesis
      by (simp add: e Let_def mv_def [symmetric])
  next
    case False
    with Cons.IH show ?thesis
      by (auto simp: e Let_def mv_def [symmetric])
  qed
qed

lemma enemy_step_frame:
  "maze a = maze b \<Longrightarrow> grid_size a = grid_size b \<Longrightarrow> enemy_step a = enemy_step b"
  by (simp add: enemy_step_def open_at_def fun_eq_iff)

lemma update_steps:
  assumes "update self rnd k = Inr (self', k')"
  shows "list_all2 (enemy_step self) (enemies self) (enemies self') \<and>
         maze self' = maze self \<and> grid_size self' = grid_size self"
proof (cases "enemy_move_delay self \<le> enemy_move_counter self + 1")
  case True
  define s2 where "s2 = self\<lparr>enemy_move_counter := 0\<rparr>"
  from assms True obtain out where
    a: "advance_enemies s2 rnd k (enemies self) [] = Inr (out, k')" and
    s': "self' = s2\<lparr>enemies := out\<rparr>"
    by (auto simp: update_def Let_def s2_def split: sum.splits)
  from advance_enemies_steps [OF a] have "list_all2 (enemy_step s2) (enemies self) out" by simp
  moreover have "enemy_step s2 = enemy_step self"
    by (intro enemy_step_frame) (simp_all add: s2_def)
  ultimately show ?thesis by (simp add: s' s2_def)
next
  case False
  with assms have "self' = self\<lparr>enemy_move_counter := enemy_move_counter self + 1\<rparr>"
    by (simp add: update_def Let_def)
  then show ?thesis by (simp add: enemy_step_def list_all2_same)
qed

lemma update_returns:
  assumes "square_grid (grid_size self) (maze self)"
  shows "\<exists>self' k'. update self rnd k = Inr (self', k')"
proof (cases "enemy_move_delay self \<le> enemy_move_counter self + 1")
  case True
  define s2 where "s2 = self\<lparr>enemy_move_counter := 0\<rparr>"
  have "square_grid (grid_size s2) (maze s2)" using assms by (simp add: s2_def)
  from advance_enemies_returns [OF this, of rnd k "enemies self" "[]"]
  obtain out k' where "advance_enemies s2 rnd k (enemies self) [] = Inr (out, k')" by blast
  with True show ?thesis by (simp add: update_def Let_def s2_def)
next
  case False
  then show ?thesis by (simp add: update_def Let_def)
qed

lemma move_players_frame:
  assumes "move_players self move = Inr self'"
  shows "maze self' = maze self \<and> grid_size self' = grid_size self \<and> enemies self' = enemies self"
  using assms
  by (auto simp: move_players_def Let_def split: prod.splits sum.splits if_splits)

lemma reachable_on_open_cells: "reachable self \<Longrightarrow> on_open_cells self"
proof (induction rule: reachable.induct)
  case (start self0 src cur self cur')
  from reset_game_sound [OF start] show ?case
    by (simp add: on_open_cells_def spawn_ok_def)
next
  case (moved self move self')
  from move_players_frame [OF moved(2)] moved(3) show ?case
    by (simp add: on_open_cells_def open_at_def)
next
  case (advanced self rnd k self' k')
  note u = update_steps [OF advanced(2)]
  have "open_at self' e" if "e \<in> set (enemies self')" for e
  proof -
    from that obtain i where i: "i < length (enemies self')" "e = enemies self' ! i"
      by (auto simp: in_set_conv_nth)
    from u have l: "list_all2 (enemy_step self) (enemies self) (enemies self')" by blast
    from list_all2_nthD2 [OF l i(1)] i(2)
    have st: "enemy_step self (enemies self ! i) e" and il: "i < length (enemies self)"
      using list_all2_lengthD [OF l] i(1) by simp_all
    from il advanced(3) have "open_at self (enemies self ! i)" by (simp add: on_open_cells_def)
    with st have "open_at self e" by (auto simp: enemy_step_def)
    with u show ?thesis by (simp add: open_at_def)
  qed
  with u advanced(3) show ?case by (simp add: on_open_cells_def)
next
  case (stopped self)
  then show ?case by (simp add: on_open_cells_def open_at_def)
qed

text \<open>
  Claim C8. In every state of an episode, \<open>update\<close> returns, and it takes each adversary
  to its previous cell or to a neighbouring cell (up, down, left or right) that is inside
  the grid and open; and in every state of an episode every adversary stands on a cell
  that is inside the grid and open.
\<close>

theorem adversaries_only_on_open_cells:
  assumes "reachable self"
  shows "(\<forall>e \<in> set (enemies self). open_at self e) \<and>
         (\<forall>rnd k. \<exists>self' k'. update self rnd k = Inr (self', k') \<and>
            list_all2 (enemy_step self) (enemies self) (enemies self'))"
proof -
  from reachable_on_open_cells [OF assms]
  have sq: "square_grid (grid_size self) (maze self)"
    and op: "\<forall>e \<in> set (enemies self). open_at self e"
    by (simp_all add: on_open_cells_def)
  have "\<exists>self' k'. update self rnd k = Inr (self', k') \<and>
            list_all2 (enemy_step self) (enemies self) (enemies self')" for rnd k
  proof -
    from update_returns [OF sq, of rnd k] obtain self' k' where u: "update self rnd k = Inr (self', k')"
      by blast
    from update_steps [OF u] u show ?thesis by blast
  qed
  with op show ?thesis by blast
qed

lemma reset_walk:
  "reset_game ((new_game 3)\<lparr>enemy_move_counter := 4\<rparr>) dup_src 0 = Some (Inr (walk_game, 21))"
  by code_simp

lemma update_walk:
  "update walk_game (\<lambda>_. 3) 0 =
     Inr (walk_game\<lparr>enemy_move_counter := 0, enemies := [(0, 0), (0, 0), (0, 0)]\<rparr>, 3)"
  by code_simp

theorem adversaries_only_on_open_cells_witness:
  "reachable walk_game \<and> enemies walk_game = [(1, 0), (1, 0), (1, 0)] \<and>
   open_at walk_game (1, 0) \<and>
   update walk_game (\<lambda>_. 3) 0 =
     Inr (walk_game\<lparr>enemy_move_counter := 0, enemies := [(0, 0), (0, 0), (0, 0)]\<rparr>, 3) \<and>
   enemy_step walk_game (1, 0) (0, 0)"
proof -
  have r: "reachable walk_game" by (rule reachable.start [OF reset_walk])
  have e: "enemies walk_game = [(1, 0), (1, 0), (1, 0)]"
    by (simp add: walk_game_def dup_game_def)
  from adversaries_only_on_open_cells [OF r] e have o: "open_at walk_game (1, 0)" by simp
  from adversaries_only_on_open_cells [OF r] obtain self' k' where
    "update walk_game (\<lambda>_. 3) 0 = Inr (self', k')"
    "list_all2 (enemy_step walk_game) (enemies walk_game) (enemies self')" by blast
  with update_walk e have "enemy_step walk_game (1, 0) (0, 0)" by simp
  with r e o update_walk show ?thesis by blast
qed

subsection \<open>The end of the game\<close>

lemma reset_game_safe:
  assumes "reset_game self src cur = Some (Inr (self', cur'))"
  shows "\<not> loss_condition self'"
proof -
  from reset_game_sound [OF assms] have "\<forall>e \<in> set (enemies self'). spawn_ok self' e" by blast
  then show ?thesis by (auto simp: loss_condition_def spawn_ok_def)
qed

lemma end_screen_events_safe:
  "end_screen_events evs self src cur w = Returns (self', cur', w') \<Longrightarrow>
   (\<not> w \<longrightarrow> \<not> loss_condition self) \<Longrightarrow> (\<not> w' \<longrightarrow> \<not> loss_condition self')"
proof (induction evs arbitrary: self cur w)
  case Nil
  then show ?case by simp
next
  case (Cons ev evs)
  show ?case
  proof (cases ev)
    case QUIT
    with Cons.prems show ?thesis by simp
  next
    case (KEYDOWN k)
    show ?thesis
    proof (cases "k = K_r")
      case True
      with Cons.prems(1) KEYDOWN obtain s1 c1 where
        rs: "reset_game self src cur = Some (Inr (s1, c1))" and
        rest: "end_screen_events evs s1 src c1 False = Returns (self', cur', w')"
        by (auto split: option.splits sum.splits)
      from reset_game_safe [OF rs] have "\<not> False \<longrightarrow> \<not> loss_condition s1" by simp
      from Cons.IH [OF rest this] show ?thesis .
    next
      case False
      with Cons.prems(1) KEYDOWN have
        rest: "end_screen_events evs self src cur w = Returns (self', cur', w')"
        by (auto split: if_splits)
      from Cons.IH [OF rest Cons.prems(2)] show ?thesis .
    qed
  next
    case OTHER_EVENT
    with Cons.prems(1) have
      rest: "end_screen_events evs self src cur w = Returns (self', cur', w')" by simp
    from Cons.IH [OF rest Cons.prems(2)] show ?thesis .
  qed
qed

lemma end_screen_wait_safe:
  "end_screen_wait input self src cur = Returns (self', cur', rest) \<Longrightarrow> \<not> loss_condition self'"
proof (induction input arbitrary: self cur)
  case Nil
  then show ?case by simp
next
  case (Cons batch later)
  from Cons.prems obtain s1 c1 w1 where
    ev: "end_screen_events batch self src cur True = Returns (s1, c1, w1)"
    by (auto split: flow.splits)
  show ?case
  proof (cases w1)
    case True
    with Cons.prems ev have "end_screen_wait later s1 src c1 = Returns (self', cur', rest)"
      by simp
    then show ?thesis by (rule Cons.IH)
  next
    case False
    with Cons.prems ev have "s1 = self'" by simp
    with end_screen_events_safe [OF ev] False show ?thesis by simp
  qed
qed

lemma messages_differ: "win_message \<noteq> lose_message"
  by (simp add: win_message_def lose_message_def)

text \<open>
  Claim C1. When the win condition and the loss condition both hold as \<open>check_game_over\<close>
  is called, the messages it shows are the win message alone, whatever the player types
  and whatever the backend measures: the win check comes first, and its end screen
  returns only after a reset, which leaves no adversary on a player.
\<close>

theorem win_takes_precedence:
  assumes "win_condition self" and "loss_condition self"
  shows "fst (check_game_over self src cur input) = [win_message] \<and>
         lose_message \<notin> set (fst (check_game_over self src cur input))"
proof -
  have "fst (check_game_over self src cur input) = [win_message]"
  proof (cases "end_screen_wait input self src cur")
    case (Returns r)
    obtain s1 c1 rest where r: "r = (s1, c1, rest)" by (cases r) auto
    from end_screen_wait_safe [OF Returns [unfolded r]]
    have "\<not> loss_condition (s1\<lparr>running := False\<rparr>)" by (simp add: loss_condition_def)
    with Returns r assms(1) show ?thesis
      by (simp add: check_game_over_def end_if_def show_end_screen_def)
  next
    case (Raises e)
    with assms(1) show ?thesis by (simp add: check_game_over_def end_if_def show_end_screen_def)
  next
    case Exits
    with assms(1) show ?thesis by (simp add: check_game_over_def end_if_def show_end_screen_def)
  next
    case Hangs
    with assms(1) show ?thesis by (simp add: check_game_over_def end_if_def show_end_screen_def)
  qed
  then show ?thesis using messages_differ by simp
qed

lemma check_tie:
  "check_game_over tie_game dup_src 0 [[KEYDOWN K_r]] =
     ([win_message], Returns (dup_game\<lparr>running := False\<rparr>, 21, []))"
  by code_simp

theorem win_takes_precedence_witness:
  "win_condition tie_game \<and> loss_condition tie_game \<and>
   check_game_over tie_game dup_src 0 [[KEYDOWN K_r]] =
     ([win_message], Returns (dup_game\<lparr>running := False\<rparr>, 21, []))"
proof -
  have w: "win_condition tie_game" by (simp add: tie_game_def dup_game_def win_condition_def)
  have l: "loss_condition tie_game" by (simp add: tie_game_def dup_game_def loss_condition_def)
  from win_takes_precedence [OF w l, of dup_src 0 "[[KEYDOWN K_r]]"] w l check_tie
  show ?thesis by blast
qed

end
